theory Spec2Isabelle
  imports Main
begin

section \<open>The persistent store of the mempool RBF tracker\<close>

text \<open>
  The tracker (\<^verbatim>\<open>main_Batch_WAL_new.py\<close>) keeps six SQLite tables. A table is
  modelled as the list of its rows in insertion order, a nullable column as an
  \<open>option\<close> (\<open>None\<close> is SQL's NULL), a Python integer as \<open>int\<close>, a TEXT column
  as \<open>string\<close>. Transaction ids and timestamps are never NULL in the program: they
  come from the event queue and from \<^verbatim>\<open>datetime.utcnow().isoformat()\<close>.
  Python's integers are unbounded and so is \<open>int\<close>; the 64 bits of an INTEGER column
  are not modelled, the amounts, sequence numbers and indices of the domain being far
  below them. A SELECT without ORDER BY returns the rows in table order.
\<close>

type_synonym txid = string
type_synonym timestamp = string

record tx_row =
  tx_txid :: txid
  fetched_at :: timestamp
  tx_fee :: int
  tx_vsize :: int

record tx_input =
  ti_txid :: txid
  prev_txid :: txid
  prev_vout :: nat
  ti_address :: "string option"
  ti_value :: "int option"
  ti_sequence :: int

record tx_output =
  to_txid :: txid
  vout_index :: nat
  to_address :: "string option"
  to_value :: "int option"

record rbf_row =
  rbf_txid :: txid
  added_at :: timestamp

record replacement =
  orig_txid :: txid
  new_txid :: txid
  change_address :: "string option"
  change_vout_index :: nat
  old_value :: int
  new_value :: int
  diff :: int
  detected_at :: timestamp

record change_input =
  ci_orig_txid :: txid
  ci_new_txid :: txid
  ci_change_address :: "string option"
  ci_change_vout_index :: nat
  input_address :: "string option"
  ci_detected_at :: timestamp

text \<open>
  The state the single writer works on: the six tables, and the number of times the
  clock has been read so far (every \<^verbatim>\<open>datetime.utcnow()\<close> is a fresh reading).
\<close>

record state =
  tx :: "tx_row list"
  tx_inputs :: "tx_input list"
  tx_outputs :: "tx_output list"
  rbf_txs :: "rbf_row list"
  replacements :: "replacement list"
  change_inputs :: "change_input list"
  ticks :: nat

subsection \<open>The outside world: fetched JSON, the HTTP API, the clock\<close>

text \<open>
  The JSON of \<^verbatim>\<open>GET /tx/{txid}\<close>, with every key the code reads; a key that
  may be absent is an \<open>option\<close> (\<open>None\<close>: the key is missing).
\<close>

record prevout_json =
  scriptpubkey_address :: "string option"
  prevout_value :: "int option"

record vin_json =
  vin_txid :: "txid option"
  vin_vout :: "nat option"
  vin_sequence :: "int option"
  vin_prevout :: "prevout_json option"

record vout_json =
  vout_address :: "string option"
  vout_value :: "int option"

record tx_json =
  js_fee :: "int option"
  js_vsize :: "int option"
  js_vin :: "vin_json list option"
  js_vout :: "vout_json list option"

datatype http_response =
  Http200 tx_json
| Http404
| HttpError nat
| NetworkError

text \<open>
  The environment of a run: what the API answers for a transaction id, what the
  \<open>n\<close>-th reading of the clock returns (microseconds since the epoch), and the
  library's \<^verbatim>\<open>isoformat\<close>, which is taken as a parameter.
\<close>

record env =
  api :: "txid \<Rightarrow> http_response"
  utcnow :: "nat \<Rightarrow> int"
  isoformat :: "int \<Rightarrow> timestamp"

datatype py_error = KeyError string | TypeError

text \<open>
  A call either returns with the new state (\<open>Inr\<close>) or raises (\<open>Inl\<close>); a raise
  carries the state at the moment of the raise, since nothing is rolled back.
\<close>

type_synonym outcome = "(py_error \<times> state) + state"

definition final :: "outcome \<Rightarrow> state" where
  "final r = (case r of Inl (e, s) \<Rightarrow> s | Inr s \<Rightarrow> s)"

definition RBF_SEQ_THRESHOLD :: int where
  "RBF_SEQ_THRESHOLD = 0xFFFFFFFE"

definition HISTORY_DAYS :: int where
  "HISTORY_DAYS = 7"

definition get_or :: "'a option \<Rightarrow> 'a \<Rightarrow> 'a" where
  "get_or v d = (case v of None \<Rightarrow> d | Some x \<Rightarrow> x)"

subsection \<open>Idempotent inserts\<close>

text \<open>
  \<^verbatim>\<open>INSERT OR IGNORE\<close> skips the row when it conflicts with the table's PRIMARY
  KEY. The tables are ordinary rowid tables and no key column is declared NOT NULL, so
  SQLite lets a key column be NULL and counts a NULL as distinct from every value,
  another NULL included: a row with a NULL in its key never conflicts.
\<close>

definition tx_conflict :: "tx_row \<Rightarrow> tx_row list \<Rightarrow> bool" where
  "tx_conflict row rows = (\<exists>r \<in> set rows. tx_txid r = tx_txid row)"

definition insert_tx :: "tx_row \<Rightarrow> tx_row list \<Rightarrow> tx_row list" where
  "insert_tx row rows = (if tx_conflict row rows then rows else rows @ [row])"

definition rbf_conflict :: "rbf_row \<Rightarrow> rbf_row list \<Rightarrow> bool" where
  "rbf_conflict row rows = (\<exists>r \<in> set rows. rbf_txid r = rbf_txid row)"

definition insert_rbf :: "rbf_row \<Rightarrow> rbf_row list \<Rightarrow> rbf_row list" where
  "insert_rbf row rows = (if rbf_conflict row rows then rows else rows @ [row])"

definition replacement_conflict :: "replacement \<Rightarrow> replacement list \<Rightarrow> bool" where
  "replacement_conflict row rows =
     (change_address row \<noteq> None \<and>
      (\<exists>r \<in> set rows. orig_txid r = orig_txid row \<and> new_txid r = new_txid row \<and>
         change_address r = change_address row \<and>
         change_vout_index r = change_vout_index row))"

definition insert_replacement :: "replacement \<Rightarrow> replacement list \<Rightarrow> replacement list" where
  "insert_replacement row rows =
     (if replacement_conflict row rows then rows else rows @ [row])"

definition change_input_conflict :: "change_input \<Rightarrow> change_input list \<Rightarrow> bool" where
  "change_input_conflict row rows =
     (ci_change_address row \<noteq> None \<and> input_address row \<noteq> None \<and>
      (\<exists>r \<in> set rows. ci_orig_txid r = ci_orig_txid row \<and>
         ci_new_txid r = ci_new_txid row \<and>
         ci_change_address r = ci_change_address row \<and>
         input_address r = input_address row \<and>
         ci_change_vout_index r = ci_change_vout_index row))"

definition insert_change_input :: "change_input \<Rightarrow> change_input list \<Rightarrow> change_input list" where
  "insert_change_input row rows =
     (if change_input_conflict row rows then rows else rows @ [row])"

section \<open>The replacement detector\<close>

text \<open>
  \<^verbatim>\<open>SELECT vout_index, address, value FROM tx_outputs WHERE txid=?\<close>, the rows in
  table order.
\<close>

type_synonym out_entry = "nat \<times> string option \<times> int option"

definition select_outputs :: "txid \<Rightarrow> state \<Rightarrow> out_entry list" where
  "select_outputs t s =
     map (\<lambda>r. (vout_index r, to_address r, to_value r))
       (filter (\<lambda>r. to_txid r = t) (tx_outputs s))"

text \<open>
  A Python dict keeps its keys in the order of their first insertion; storing under a
  key that is present replaces the value in place.
\<close>

type_synonym out_dict = "(nat \<times> (string option \<times> int option)) list"

fun dict_put :: "out_dict \<Rightarrow> nat \<Rightarrow> (string option \<times> int option) \<Rightarrow> out_dict" where
  "dict_put [] k v = [(k, v)]"
| "dict_put ((k', v') # d) k v =
     (if k' = k then (k, v) # d else (k', v') # dict_put d k v)"

text \<open>\<^verbatim>\<open>{idx: (addr, val) for (idx, addr, val) in rows}\<close>\<close>

definition by_idx :: "out_entry list \<Rightarrow> out_dict" where
  "by_idx rows = foldl (\<lambda>d (i, a, v). dict_put d i (a, v)) [] rows"

definition dict_get :: "out_dict \<Rightarrow> nat \<Rightarrow> (string option \<times> int option) option" where
  "dict_get d k = map_of d k"

type_synonym diff_entry = "nat \<times> string option \<times> int option \<times> int option"

text \<open>
  The loop over \<^verbatim>\<open>orig_by_idx.keys()\<close>. \<open>Inr None\<close> is the early
  \<^verbatim>\<open>return\<close> on an address mismatch, \<open>Inr (Some diffs)\<close> the list the loop
  built; \<^verbatim>\<open>new_by_idx[idx]\<close> raises KeyError on a missing key.
\<close>

fun diff_loop :: "out_dict \<Rightarrow> out_dict \<Rightarrow> diff_entry list \<Rightarrow> py_error + diff_entry list option" where
  "diff_loop [] nb diffs = Inr (Some diffs)"
| "diff_loop ((idx, (orig_addr, orig_val)) # rest) nb diffs =
     (case dict_get nb idx of
        None \<Rightarrow> Inl (KeyError ''idx'')
      | Some (new_addr, new_val) \<Rightarrow>
          if orig_addr \<noteq> new_addr then Inr None
          else if orig_val \<noteq> new_val
            then diff_loop rest nb (diffs @ [(idx, orig_addr, orig_val, new_val)])
            else diff_loop rest nb diffs)"

text \<open>
  \<^verbatim>\<open>SELECT DISTINCT address FROM tx_inputs WHERE txid=?\<close>: each address once, in
  the order of its first row; DISTINCT takes two NULLs for the same value.
\<close>

definition select_distinct_addresses :: "txid \<Rightarrow> state \<Rightarrow> string option list" where
  "select_distinct_addresses t s =
     rev (remdups (rev (map ti_address (filter (\<lambda>r. ti_txid r = t) (tx_inputs s)))))"

text \<open>
  \<^verbatim>\<open>record_replacement(orig_txid, new_txid, conn)\<close>. The comparison
  \<^verbatim>\<open>new_val >= old_val\<close> raises TypeError when an operand is None (a NULL
  value column). The clock is read only once all checks have passed.
\<close>

definition record_replacement :: "env \<Rightarrow> txid \<Rightarrow> txid \<Rightarrow> state \<Rightarrow> outcome" where
  "record_replacement e orig new s =
     (let orig_by_idx = by_idx (select_outputs orig s);
          new_by_idx = by_idx (select_outputs new s)
      in if set (map fst orig_by_idx) \<noteq> set (map fst new_by_idx) then Inr s
         else case diff_loop orig_by_idx new_by_idx [] of
           Inl err \<Rightarrow> Inl (err, s)
         | Inr None \<Rightarrow> Inr s
         | Inr (Some diffs) \<Rightarrow>
             if length diffs \<noteq> 1 then Inr s
             else case hd diffs of (change_idx, change_addr, old_val, new_val) \<Rightarrow>
               (case (new_val, old_val) of
                  (Some nv, Some ov) \<Rightarrow>
                    if nv \<ge> ov then Inr s
                    else
                      let d = ov - nv;
                          ts = isoformat e (utcnow e (ticks s));
                          s1 = s\<lparr>ticks := ticks s + 1\<rparr>;
                          s2 = s1\<lparr>replacements := insert_replacement
                                 \<lparr>orig_txid = orig, new_txid = new,
                                  change_address = change_addr,
                                  change_vout_index = change_idx, old_value = ov,
                                  new_value = nv, diff = d, detected_at = ts\<rparr>
                                 (replacements s1)\<rparr>;
                          inputs = select_distinct_addresses orig s2
                      in Inr (foldl (\<lambda>st inp. st\<lparr>change_inputs := insert_change_input
                                 \<lparr>ci_orig_txid = orig, ci_new_txid = new,
                                  ci_change_address = change_addr,
                                  ci_change_vout_index = change_idx, input_address = inp,
                                  ci_detected_at = ts\<rparr>
                                 (change_inputs st)\<rparr>) s2 inputs)
                | _ \<Rightarrow> Inl (TypeError, s)))"

section \<open>Ingesting one transaction\<close>

text \<open>
  \<^verbatim>\<open>fetch_tx\<close> returns the JSON on success and None on a 404, on any other HTTP
  error and on a network error. (The statistics counters it bumps are never read by
  the logic and are left out.)
\<close>

definition fetch_tx :: "env \<Rightarrow> txid \<Rightarrow> tx_json option" where
  "fetch_tx e t = (case api e t of Http200 j \<Rightarrow> Some j | _ \<Rightarrow> None)"

text \<open>
  The first loop of \<^verbatim>\<open>process_added_nocommit\<close>: one plain INSERT per input.
  \<^verbatim>\<open>vin["txid"]\<close> and \<^verbatim>\<open>vin["vout"]\<close> raise KeyError when the key is
  missing, before the row is written and before the sequence is compared.
\<close>

fun insert_inputs :: "txid \<Rightarrow> vin_json list \<Rightarrow> state \<Rightarrow> bool \<Rightarrow> (py_error \<times> state) + (state \<times> bool)" where
  "insert_inputs t [] s is_rbf = Inr (s, is_rbf)"
| "insert_inputs t (vin # rest) s is_rbf =
     (let seq = get_or (vin_sequence vin) 0;
          prev = get_or (vin_prevout vin)
                   \<lparr>scriptpubkey_address = None, prevout_value = None\<rparr>
      in case vin_txid vin of
           None \<Rightarrow> Inl (KeyError ''txid'', s)
         | Some p \<Rightarrow>
             (case vin_vout vin of
                None \<Rightarrow> Inl (KeyError ''vout'', s)
              | Some v \<Rightarrow>
                  insert_inputs t rest
                    (s\<lparr>tx_inputs := tx_inputs s @
                        [\<lparr>ti_txid = t, prev_txid = p, prev_vout = v,
                          ti_address = scriptpubkey_address prev,
                          ti_value = prevout_value prev, ti_sequence = seq\<rparr>]\<rparr>)
                    (if seq < RBF_SEQ_THRESHOLD then True else is_rbf)))"

text \<open>The second loop: one plain INSERT per output, numbered by \<^verbatim>\<open>enumerate\<close>.\<close>

fun insert_outputs :: "txid \<Rightarrow> nat \<Rightarrow> vout_json list \<Rightarrow> state \<Rightarrow> state" where
  "insert_outputs t idx [] s = s"
| "insert_outputs t idx (vout # rest) s =
     insert_outputs t (Suc idx) rest
       (s\<lparr>tx_outputs := tx_outputs s @
           [\<lparr>to_txid = t, vout_index = idx, to_address = vout_address vout,
             to_value = vout_value vout\<rparr>]\<rparr>)"

text \<open>
  \<^verbatim>\<open>SELECT ti.txid FROM tx_inputs ti JOIN rbf_txs r ON ti.txid = r.txid
  WHERE ti.prev_txid = ? AND ti.prev_vout = ?\<close>: one result per matching input row
  and candidate row.
\<close>

definition select_rbf_spenders :: "txid \<Rightarrow> nat \<Rightarrow> state \<Rightarrow> txid list" where
  "select_rbf_spenders p v s =
     concat (map (\<lambda>ti. map (\<lambda>r. ti_txid ti)
                          (filter (\<lambda>r. rbf_txid r = ti_txid ti) (rbf_txs s)))
               (filter (\<lambda>ti. prev_txid ti = p \<and> prev_vout ti = v) (tx_inputs s)))"

fun replace_each :: "env \<Rightarrow> txid \<Rightarrow> txid list \<Rightarrow> state \<Rightarrow> outcome" where
  "replace_each e t [] s = Inr s"
| "replace_each e t (orig # rest) s =
     (if orig \<noteq> t
      then (case record_replacement e orig t s of
              Inl err \<Rightarrow> Inl err
            | Inr s' \<Rightarrow> replace_each e t rest s')
      else replace_each e t rest s)"

fun detect_loop :: "env \<Rightarrow> txid \<Rightarrow> vin_json list \<Rightarrow> state \<Rightarrow> outcome" where
  "detect_loop e t [] s = Inr s"
| "detect_loop e t (vin # rest) s =
     (case vin_txid vin of
        None \<Rightarrow> Inl (KeyError ''txid'', s)
      | Some p \<Rightarrow>
          (case vin_vout vin of
             None \<Rightarrow> Inl (KeyError ''vout'', s)
           | Some v \<Rightarrow>
               (case replace_each e t (select_rbf_spenders p v s) s of
                  Inl err \<Rightarrow> Inl err
                | Inr s' \<Rightarrow> detect_loop e t rest s')))"

definition process_added_nocommit :: "env \<Rightarrow> txid \<Rightarrow> state \<Rightarrow> outcome" where
  "process_added_nocommit e t s =
     (case fetch_tx e t of
        None \<Rightarrow> Inr s
      | Some j \<Rightarrow>
          let now = isoformat e (utcnow e (ticks s));
              s0 = s\<lparr>ticks := ticks s + 1\<rparr>;
              s1 = s0\<lparr>tx := insert_tx
                     \<lparr>tx_txid = t, fetched_at = now, tx_fee = get_or (js_fee j) 0,
                      tx_vsize = get_or (js_vsize j) 0\<rparr> (tx s0)\<rparr>
          in (case insert_inputs t (get_or (js_vin j) []) s1 False of
                Inl err \<Rightarrow> Inl err
              | Inr (s2, is_rbf) \<Rightarrow>
                  (let s3 = insert_outputs t 0 (get_or (js_vout j) []) s2
                   in if is_rbf
                      then detect_loop e t (get_or (js_vin j) [])
                             (s3\<lparr>rbf_txs := insert_rbf
                                   \<lparr>rbf_txid = t, added_at = now\<rparr> (rbf_txs s3)\<rparr>)
                      else Inr s3)))"

section \<open>The connection, the purge and the batch worker\<close>

text \<open>
  A connection: the state the writer sees, the state of the last commit, and whether
  the handle is closed.
\<close>

record conn =
  live :: state
  committed :: state
  closed :: bool

definition commit :: "conn \<Rightarrow> conn" where
  "commit c = c\<lparr>committed := live c\<rparr>"

definition close_conn :: "conn \<Rightarrow> conn" where
  "close_conn c = c\<lparr>closed := True\<rparr>"

text \<open>
  SQLite compares TEXT under the BINARY collation: byte by byte, a proper prefix first.
\<close>

fun text_less :: "string \<Rightarrow> string \<Rightarrow> bool" where
  "text_less [] [] = False"
| "text_less [] (y # ys) = True"
| "text_less (x # xs) [] = False"
| "text_less (x # xs) (y # ys) =
     ((of_char x :: nat) < of_char y \<or> (x = y \<and> text_less xs ys))"

text \<open>
  The cutoff of a purge: the clock reading minus \<^verbatim>\<open>timedelta(days=HISTORY_DAYS)\<close>,
  in microseconds, as ISO text.
\<close>

definition cutoff :: "env \<Rightarrow> state \<Rightarrow> timestamp" where
  "cutoff e s = isoformat e (utcnow e (ticks s) - HISTORY_DAYS * 86400 * 1000000)"

definition purge_old :: "env \<Rightarrow> conn \<Rightarrow> conn" where
  "purge_old e c =
     (let s = live c;
          ts = cutoff e s;
          s0 = s\<lparr>ticks := ticks s + 1\<rparr>;
          s1 = s0\<lparr>tx := filter (\<lambda>r. \<not> text_less (fetched_at r) ts) (tx s0)\<rparr>;
          s2 = s1\<lparr>tx_inputs :=
                 filter (\<lambda>r. ti_txid r \<in> set (map tx_txid (tx s1))) (tx_inputs s1)\<rparr>;
          s3 = s2\<lparr>tx_outputs :=
                 filter (\<lambda>r. to_txid r \<in> set (map tx_txid (tx s2))) (tx_outputs s2)\<rparr>;
          s4 = s3\<lparr>rbf_txs := filter (\<lambda>r. \<not> text_less (added_at r) ts) (rbf_txs s3)\<rparr>;
          s5 = s4\<lparr>replacements :=
                 filter (\<lambda>r. \<not> text_less (detected_at r) ts) (replacements s4)\<rparr>
      in commit (c\<lparr>live := s5\<rparr>))"

record worker =
  buffer :: "txid list"
  wconn :: conn
  batch_size :: nat

fun process_all :: "env \<Rightarrow> txid list \<Rightarrow> state \<Rightarrow> outcome" where
  "process_all e [] s = Inr s"
| "process_all e (t # rest) s =
     (case process_added_nocommit e t s of
        Inl err \<Rightarrow> Inl err
      | Inr s' \<Rightarrow> process_all e rest s')"

text \<open>
  \<^verbatim>\<open>_flush_batch\<close>: an exception of \<^verbatim>\<open>process_added_nocommit\<close> leaves the
  loop at once; the commit and the \<^verbatim>\<open>buffer.clear()\<close> after it are not reached.
\<close>

definition flush_batch :: "env \<Rightarrow> worker \<Rightarrow> (py_error \<times> worker) + worker" where
  "flush_batch e w =
     (case process_all e (buffer w) (live (wconn w)) of
        Inl (err, s) \<Rightarrow> Inl (err, w\<lparr>wconn := (wconn w)\<lparr>live := s\<rparr>\<rparr>)
      | Inr s \<Rightarrow> Inr (w\<lparr>wconn := commit ((wconn w)\<lparr>live := s\<rparr>), buffer := []\<rparr>))"

datatype event = Added txid | Purge | Stop | Unknown

text \<open>
  The \<^verbatim>\<open>while True\<close> of \<^verbatim>\<open>BatchWorker.run\<close> over the events the queue will
  deliver. It is left by \<^verbatim>\<open>break\<close> or by an exception; when the queue has
  nothing more the thread waits in \<^verbatim>\<open>event_q.get()\<close>.
\<close>

datatype loop_exit = Waiting worker | Break worker | Raise py_error worker

fun run_loop :: "env \<Rightarrow> event list \<Rightarrow> worker \<Rightarrow> loop_exit" where
  "run_loop e [] w = Waiting w"
| "run_loop e (Added t # q) w =
     (let w1 = w\<lparr>buffer := buffer w @ [t]\<rparr>
      in if length (buffer w1) \<ge> batch_size w1
         then (case flush_batch e w1 of
                 Inl (err, w2) \<Rightarrow> Raise err w2
               | Inr w2 \<Rightarrow> run_loop e q w2)
         else run_loop e q w1)"
| "run_loop e (Purge # q) w = run_loop e q (w\<lparr>wconn := purge_old e (wconn w)\<rparr>)"
| "run_loop e (Stop # q) w = Break w"
| "run_loop e (Unknown # q) w = run_loop e q w"

text \<open>The \<^verbatim>\<open>finally\<close> block: flush what is buffered, commit, close.\<close>

definition finally_block :: "env \<Rightarrow> worker \<Rightarrow> (py_error \<times> worker) + worker" where
  "finally_block e w =
     (case (if buffer w \<noteq> [] then flush_batch e w else Inr w) of
        Inl err \<Rightarrow> Inl err
      | Inr w' \<Rightarrow> Inr (w'\<lparr>wconn := close_conn (commit (wconn w'))\<rparr>))"

text \<open>
  How the thread ends: \<open>Exited\<close> when \<^verbatim>\<open>run\<close> returns, \<open>Died\<close> when an
  exception leaves it (the one of the \<^verbatim>\<open>finally\<close> block if that raises, else the
  one that left the loop), \<open>Blocked\<close> while it waits for the next event.
\<close>

datatype run_result = Blocked worker | Exited worker | Died py_error worker

definition run :: "env \<Rightarrow> event list \<Rightarrow> worker \<Rightarrow> run_result" where
  "run e q w =
     (case run_loop e q w of
        Waiting w' \<Rightarrow> Blocked w'
      | Break w' \<Rightarrow>
          (case finally_block e w' of
             Inl (err, w'') \<Rightarrow> Died err w''
           | Inr w'' \<Rightarrow> Exited w'')
      | Raise err w' \<Rightarrow>
          (case finally_block e w' of
             Inl (err2, w'') \<Rightarrow> Died err2 w''
           | Inr w'' \<Rightarrow> Died err w''))"

section \<open>The poller\<close>

text \<open>
  What the \<open>k\<close>-th call of \<^verbatim>\<open>fetch_mempool_full\<close> does: it returns the list of
  ids, or it raises.
\<close>

datatype snapshot = Txids "txid list" | FetchFailed

record poller =
  last :: "txid set"
  emitted :: "event list"

text \<open>
  One pass of the polling loop: the whole body stands in \<^verbatim>\<open>try ... except
  Exception\<close>, so a failed fetch changes nothing.
\<close>

definition poll_cycle :: "snapshot \<Rightarrow> poller \<Rightarrow> poller" where
  "poll_cycle r p =
     (case r of
        FetchFailed \<Rightarrow> p
      | Txids txids \<Rightarrow>
          \<lparr>last = set txids,
           emitted = emitted p @ map Added (filter (\<lambda>t. t \<notin> last p) txids)\<rparr>)"

fun poll_loop :: "(nat \<Rightarrow> snapshot) \<Rightarrow> nat \<Rightarrow> nat \<Rightarrow> poller \<Rightarrow> poller" where
  "poll_loop m k 0 p = p"
| "poll_loop m k (Suc n) p = poll_loop m (Suc k) n (poll_cycle (m k) p)"

text \<open>
  \<^verbatim>\<open>Poller.run\<close>, observed after \<open>n\<close> passes of its loop. The initial snapshot is
  fetched before the loop, outside any \<^verbatim>\<open>try\<close>: an exception there ends the thread.
\<close>

datatype poller_status = Polling poller | Terminated

definition poller_run :: "(nat \<Rightarrow> snapshot) \<Rightarrow> nat \<Rightarrow> poller_status" where
  "poller_run m n =
     (case m 0 of
        FetchFailed \<Rightarrow> Terminated
      | Txids initial \<Rightarrow>
          Polling (poll_loop m 1 n \<lparr>last = set initial, emitted = map Added initial\<rparr>))"

section \<open>Notions the properties are stated with\<close>

text \<open>
  What a dict of outputs holds at an index: \<open>None\<close> when the index is no key of it,
  else the address (or the value) stored there, which may itself be NULL.
\<close>

definition address_at :: "out_dict \<Rightarrow> nat \<Rightarrow> string option option" where
  "address_at d i = map_option fst (dict_get d i)"

definition value_at :: "out_dict \<Rightarrow> nat \<Rightarrow> int option option" where
  "value_at d i = map_option snd (dict_get d i)"

definition indices :: "out_dict \<Rightarrow> nat set" where
  "indices d = fst ` set d"

text \<open>The indices both transactions have and at which their values differ.\<close>

definition differing_indices :: "out_dict \<Rightarrow> out_dict \<Rightarrow> nat set" where
  "differing_indices ob nb = {i \<in> indices ob \<inter> indices nb. value_at ob i \<noteq> value_at nb i}"

text \<open>The list \<^verbatim>\<open>diffs\<close> that the loop builds when it runs to its end.\<close>

fun diffs_of :: "out_dict \<Rightarrow> out_dict \<Rightarrow> diff_entry list" where
  "diffs_of [] nb = []"
| "diffs_of ((idx, (orig_addr, orig_val)) # rest) nb =
     (case dict_get nb idx of
        None \<Rightarrow> diffs_of rest nb
      | Some (new_addr, new_val) \<Rightarrow>
          if orig_val \<noteq> new_val
          then (idx, orig_addr, orig_val, new_val) # diffs_of rest nb
          else diffs_of rest nb)"

text \<open>The rows the detector writes for a pair of transactions.\<close>

definition replacement_row :: "env \<Rightarrow> state \<Rightarrow> txid \<Rightarrow> txid \<Rightarrow> string option \<Rightarrow> nat \<Rightarrow> int \<Rightarrow> int \<Rightarrow> replacement" where
  "replacement_row e s orig new addr idx ov nv =
     \<lparr>orig_txid = orig, new_txid = new, change_address = addr, change_vout_index = idx,
      old_value = ov, new_value = nv, diff = ov - nv,
      detected_at = isoformat e (utcnow e (ticks s))\<rparr>"

definition mapping_row :: "env \<Rightarrow> state \<Rightarrow> txid \<Rightarrow> txid \<Rightarrow> string option \<Rightarrow> nat \<Rightarrow> string option \<Rightarrow> change_input" where
  "mapping_row e s orig new addr idx inp =
     \<lparr>ci_orig_txid = orig, ci_new_txid = new, ci_change_address = addr,
      ci_change_vout_index = idx, input_address = inp,
      ci_detected_at = isoformat e (utcnow e (ticks s))\<rparr>"

text \<open>The dict the detector builds for a transaction: \<^verbatim>\<open>orig_by_idx\<close>, \<^verbatim>\<open>new_by_idx\<close>.\<close>

definition outputs_by_idx :: "txid \<Rightarrow> state \<Rightarrow> out_dict" where
  "outputs_by_idx t s = by_idx (select_outputs t s)"

text \<open>
  The row the first loop writes for an input object that has its \<^verbatim>\<open>txid\<close> and
  \<^verbatim>\<open>vout\<close>; a list of input objects that all have them, as the API gives them;
  a list with an input whose sequence, taken as 0 when missing, is below the threshold.
\<close>

definition stored_input :: "txid \<Rightarrow> vin_json \<Rightarrow> tx_input" where
  "stored_input t vin =
     \<lparr>ti_txid = t, prev_txid = get_or (vin_txid vin) [], prev_vout = get_or (vin_vout vin) 0,
      ti_address = scriptpubkey_address (get_or (vin_prevout vin)
                     \<lparr>scriptpubkey_address = None, prevout_value = None\<rparr>),
      ti_value = prevout_value (get_or (vin_prevout vin)
                     \<lparr>scriptpubkey_address = None, prevout_value = None\<rparr>),
      ti_sequence = get_or (vin_sequence vin) 0\<rparr>"

definition well_formed :: "vin_json list \<Rightarrow> bool" where
  "well_formed vins = list_all (\<lambda>vin. vin_txid vin \<noteq> None \<and> vin_vout vin \<noteq> None) vins"

definition low_sequence :: "vin_json list \<Rightarrow> bool" where
  "low_sequence vins =
     list_ex (\<lambda>vin. get_or (vin_sequence vin) 0 < RBF_SEQ_THRESHOLD) vins"

text \<open>
  A JSON as the API documents it: every input object has \<^verbatim>\<open>txid\<close> and
  \<^verbatim>\<open>vout\<close>, every output object has \<^verbatim>\<open>value\<close>. A store in which no output row
  has a NULL value (every store that was filled from such JSON).
\<close>

definition conforming :: "tx_json \<Rightarrow> bool" where
  "conforming j \<longleftrightarrow> well_formed (get_or (js_vin j) []) \<and>
     list_all (\<lambda>vout. vout_value vout \<noteq> None) (get_or (js_vout j) [])"

definition valued :: "state \<Rightarrow> bool" where
  "valued s \<longleftrightarrow> list_all (\<lambda>r. to_value r \<noteq> None) (tx_outputs s)"

text \<open>The worker a run ends with, however it ends.\<close>

definition worker_of :: "run_result \<Rightarrow> worker" where
  "worker_of r = (case r of Blocked w \<Rightarrow> w | Exited w \<Rightarrow> w | Died err w \<Rightarrow> w)"

section \<open>Concrete scenarios\<close>

text \<open>A fresh store, as \<^verbatim>\<open>init_db\<close> leaves a new database: six empty tables.\<close>

definition empty_state :: state where
  "empty_state = \<lparr>tx = [], tx_inputs = [], tx_outputs = [], rbf_txs = [],
     replacements = [], change_inputs = [], ticks = 0\<rparr>"

definition empty_conn :: conn where
  "empty_conn = \<lparr>live = empty_state, committed = empty_state, closed = False\<rparr>"

text \<open>
  A replaceable transaction \<open>O\<close> spending the outpoints \<open>(P, 0)\<close> and \<open>(P, 1)\<close>,
  the first of which has no address (its \<^verbatim>\<open>prevout\<close> is absent), and its fee
  bump \<open>N\<close>, which spends the same two outpoints and pays 20 less to \<open>B\<close>.
\<close>

definition vin_P0 :: vin_json where
  "vin_P0 = \<lparr>vin_txid = Some ''P'', vin_vout = Some 0, vin_sequence = Some 0,
     vin_prevout = None\<rparr>"

definition vin_P1 :: vin_json where
  "vin_P1 = \<lparr>vin_txid = Some ''P'', vin_vout = Some 1, vin_sequence = Some 0,
     vin_prevout = Some \<lparr>scriptpubkey_address = Some ''X'', prevout_value = Some 2000\<rparr>\<rparr>"

definition tx_O :: tx_json where
  "tx_O = \<lparr>js_fee = Some 500, js_vsize = Some 100, js_vin = Some [vin_P0, vin_P1],
     js_vout = Some [\<lparr>vout_address = Some ''A'', vout_value = Some 1000\<rparr>,
                     \<lparr>vout_address = Some ''B'', vout_value = Some 500\<rparr>]\<rparr>"

definition tx_N :: tx_json where
  "tx_N = \<lparr>js_fee = Some 520, js_vsize = Some 100, js_vin = Some [vin_P0, vin_P1],
     js_vout = Some [\<lparr>vout_address = Some ''A'', vout_value = Some 1000\<rparr>,
                     \<lparr>vout_address = Some ''B'', vout_value = Some 480\<rparr>]\<rparr>"

text \<open>
  A transaction whose only input object has no \<^verbatim>\<open>txid\<close> key, and a well-formed
  one with a single input and a single output.
\<close>

definition tx_bad :: tx_json where
  "tx_bad = \<lparr>js_fee = Some 1, js_vsize = Some 1,
     js_vin = Some [\<lparr>vin_txid = None, vin_vout = Some 0, vin_sequence = Some 0,
                     vin_prevout = None\<rparr>],
     js_vout = Some []\<rparr>"

definition tx_good :: tx_json where
  "tx_good = \<lparr>js_fee = Some 300, js_vsize = Some 90,
     js_vin = Some [\<lparr>vin_txid = Some ''Q'', vin_vout = Some 0,
                     vin_sequence = Some 0xFFFFFFFF, vin_prevout = None\<rparr>],
     js_vout = Some [\<lparr>vout_address = Some ''C'', vout_value = Some 700\<rparr>]\<rparr>"

text \<open>
  A transaction \<open>F\<close> that spends the outpoints of \<open>O\<close> with final sequence numbers,
  and a transaction \<open>S\<close> whose JSON lacks \<^verbatim>\<open>fee\<close> and \<^verbatim>\<open>vsize\<close> and whose
  first input lacks \<^verbatim>\<open>sequence\<close>.
\<close>

definition tx_F :: tx_json where
  "tx_F = \<lparr>js_fee = Some 530, js_vsize = Some 100,
     js_vin = Some [vin_P0\<lparr>vin_sequence := Some 0xFFFFFFFF\<rparr>,
                    vin_P1\<lparr>vin_sequence := Some 0xFFFFFFFF\<rparr>],
     js_vout = Some [\<lparr>vout_address = Some ''A'', vout_value = Some 1000\<rparr>,
                     \<lparr>vout_address = Some ''B'', vout_value = Some 470\<rparr>]\<rparr>"

definition tx_S :: tx_json where
  "tx_S = \<lparr>js_fee = None, js_vsize = None,
     js_vin = Some [\<lparr>vin_txid = Some ''R'', vin_vout = Some 0, vin_sequence = None,
                     vin_prevout = None\<rparr>,
                    \<lparr>vin_txid = Some ''R'', vin_vout = Some 1,
                     vin_sequence = Some 0xFFFFFFFF, vin_prevout = None\<rparr>],
     js_vout = Some [\<lparr>vout_address = Some ''D'', vout_value = Some 50\<rparr>]\<rparr>"

text \<open>
  A clock that starts two weeks after the epoch, with an \<^verbatim>\<open>isoformat\<close> of one
  week's resolution.
\<close>

definition demo_iso :: "int \<Rightarrow> timestamp" where
  "demo_iso t = (if t < 604800000000 then ''1970-01-01T00:00:00''
                 else if t < 1209600000000 then ''1970-01-08T00:00:00''
                 else ''1970-01-15T00:00:00'')"

definition demo_env :: env where
  "demo_env = \<lparr>api = (\<lambda>t. if t = ''O'' then Http200 tx_O
                          else if t = ''N'' then Http200 tx_N
                          else if t = ''bad'' then Http200 tx_bad
                          else if t = ''good'' then Http200 tx_good
                          else if t = ''F'' then Http200 tx_F
                          else if t = ''S'' then Http200 tx_S
                          else Http404),
     utcnow = (\<lambda>n. 1209600000000 + int n),
     isoformat = demo_iso\<rparr>"

text \<open>A store with one row of each kind from week zero and one from week two.\<close>

definition aged_state :: state where
  "aged_state =
     \<lparr>tx = [\<lparr>tx_txid = ''old'', fetched_at = ''1970-01-01T00:00:00'', tx_fee = 1, tx_vsize = 1\<rparr>,
            \<lparr>tx_txid = ''new'', fetched_at = ''1970-01-15T00:00:00'', tx_fee = 2, tx_vsize = 2\<rparr>],
      tx_inputs =
           [\<lparr>ti_txid = ''old'', prev_txid = ''P'', prev_vout = 0, ti_address = Some ''X'',
             ti_value = Some 5, ti_sequence = 0\<rparr>,
            \<lparr>ti_txid = ''new'', prev_txid = ''P'', prev_vout = 0, ti_address = Some ''X'',
             ti_value = Some 5, ti_sequence = 0\<rparr>],
      tx_outputs =
           [\<lparr>to_txid = ''old'', vout_index = 0, to_address = Some ''B'', to_value = Some 4\<rparr>,
            \<lparr>to_txid = ''new'', vout_index = 0, to_address = Some ''B'', to_value = Some 3\<rparr>],
      rbf_txs = [\<lparr>rbf_txid = ''old'', added_at = ''1970-01-01T00:00:00''\<rparr>,
                 \<lparr>rbf_txid = ''new'', added_at = ''1970-01-15T00:00:00''\<rparr>],
      replacements =
           [\<lparr>orig_txid = ''older'', new_txid = ''old'', change_address = Some ''B'',
             change_vout_index = 0, old_value = 5, new_value = 4, diff = 1,
             detected_at = ''1970-01-01T00:00:00''\<rparr>],
      change_inputs =
           [\<lparr>ci_orig_txid = ''older'', ci_new_txid = ''old'', ci_change_address = Some ''B'',
             ci_change_vout_index = 0, input_address = Some ''X'',
             ci_detected_at = ''1970-01-01T00:00:00''\<rparr>],
      ticks = 0\<rparr>"

definition aged_conn :: conn where
  "aged_conn = \<lparr>live = aged_state, committed = aged_state, closed = False\<rparr>"

text \<open>
  A mempool in which \<open>good\<close> is seen, leaves, and comes back; and one whose first
  snapshot cannot be fetched.
\<close>

definition reentry_mempool :: "nat \<Rightarrow> snapshot" where
  "reentry_mempool k = (if k = 1 then Txids [] else Txids [''good''])"

definition down_at_start :: "nat \<Rightarrow> snapshot" where
  "down_at_start k = (if k = 0 then FetchFailed else Txids [''good''])"

definition down_later :: "nat \<Rightarrow> snapshot" where
  "down_later k = (if k = 1 then FetchFailed else Txids [''good''])"

text \<open>
  The worker as \<^verbatim>\<open>main\<close> starts it on a fresh store (batches of 200), and one
  that flushes every second event.
\<close>

definition main_worker :: worker where
  "main_worker = \<lparr>buffer = [], wconn = empty_conn, batch_size = 200\<rparr>"

definition pair_worker :: worker where
  "pair_worker = \<lparr>buffer = [], wconn = empty_conn, batch_size = 2\<rparr>"

text \<open>
  A change-input row whose input address is NULL, and a replacement row whose change
  address is NULL.
\<close>

definition null_mapping :: change_input where
  "null_mapping = \<lparr>ci_orig_txid = ''O'', ci_new_txid = ''N'', ci_change_address = Some ''B'',
     ci_change_vout_index = 1, input_address = None, ci_detected_at = ''1970-01-15T00:00:00''\<rparr>"

definition null_replacement :: replacement where
  "null_replacement = \<lparr>orig_txid = ''O'', new_txid = ''N'', change_address = None,
     change_vout_index = 1, old_value = 500, new_value = 480, diff = 20,
     detected_at = ''1970-01-15T00:00:00''\<rparr>"

text \<open>
  The scenarios of the specification: the original transaction pays 1000 to \<open>A\<close> and
  500 to \<open>B\<close>; its inputs come from \<open>X\<close>, from an output without address, and from
  \<open>X\<close> again. The outputs of the new transaction vary.
\<close>

definition output_row :: "txid \<Rightarrow> nat \<times> string \<times> int \<Rightarrow> tx_output" where
  "output_row t = (\<lambda>(i, a, v). \<lparr>to_txid = t, vout_index = i, to_address = Some a,
     to_value = Some v\<rparr>)"

definition input_row :: "txid \<Rightarrow> nat \<times> string option \<Rightarrow> tx_input" where
  "input_row t = (\<lambda>(n, a). \<lparr>ti_txid = t, prev_txid = ''P'', prev_vout = n, ti_address = a,
     ti_value = Some 800, ti_sequence = 0\<rparr>)"

definition scenario :: "(nat \<times> string \<times> int) list \<Rightarrow> state" where
  "scenario news =
     \<lparr>tx = [\<lparr>tx_txid = ''orig'', fetched_at = ''1970-01-15T00:00:00'', tx_fee = 900, tx_vsize = 200\<rparr>,
            \<lparr>tx_txid = ''new'', fetched_at = ''1970-01-15T00:00:00'', tx_fee = 920, tx_vsize = 200\<rparr>],
      tx_inputs = map (input_row ''orig'') [(0, Some ''X''), (1, None), (2, Some ''X'')] @
                  map (input_row ''new'') [(0, Some ''X''), (1, None), (2, Some ''X'')],
      tx_outputs = map (output_row ''orig'') [(0, ''A'', 1000), (1, ''B'', 500)] @
                   map (output_row ''new'') news,
      rbf_txs = [\<lparr>rbf_txid = ''orig'', added_at = ''1970-01-15T00:00:00''\<rparr>,
                 \<lparr>rbf_txid = ''new'', added_at = ''1970-01-15T00:00:00''\<rparr>],
      replacements = [], change_inputs = [], ticks = 5\<rparr>"

definition scenario_A :: state where
  "scenario_A = scenario [(0, ''A'', 1000), (1, ''B'', 480)]"

definition scenario_B :: state where
  "scenario_B = scenario [(0, ''A'', 900), (1, ''B'', 480)]"

definition scenario_C :: state where
  "scenario_C = scenario [(0, ''A'', 1000), (1, ''B'', 520)]"

definition scenario_fewer :: state where
  "scenario_fewer = scenario [(0, ''A'', 1000)]"

definition scenario_moved :: state where
  "scenario_moved = scenario [(0, ''A'', 1000), (1, ''Z'', 480)]"

text \<open>The store after \<open>O\<close> alone has been ingested into a fresh one.\<close>

definition after_O :: state where
  "after_O = final (process_added_nocommit demo_env ''O'' empty_state)"

text \<open>The store after \<open>O\<close> and then \<open>N\<close> have been ingested into a fresh one.\<close>

definition two_stored :: state where
  "two_stored = final (process_all demo_env [''O'', ''N''] empty_state)"

section \<open>Properties\<close>

subsection \<open>The poller\<close>

lemma poll_cycle_failed: "poll_cycle FetchFailed p = p"
  by (simp add: poll_cycle_def)

text \<open>Once the first snapshot has arrived no later failure ends the thread.\<close>

lemma poller_survives_later_failures:
  "m 0 = Txids initial \<Longrightarrow> \<exists>p. poller_run m n = Polling p"
  by (simp add: poller_run_def)

lemma poller_down_later: "poller_run down_later 1 =
    Polling \<lparr>last = {''good''}, emitted = [Added ''good'']\<rparr>"
  by (simp add: poller_run_def down_later_def poll_cycle_def)

text \<open>
  C7. The specification: every failure of the snapshot fetch is swallowed, the very first
  fetch included, so the poller never terminates on a fetch error. In the code the
  first fetch stands outside the \<^verbatim>\<open>try\<close>: when it fails the thread has terminated,
  however many passes of the loop one waits for.
\<close>

theorem poller_dies_on_first_fetch_failure:
  "poller_run down_at_start n = Terminated"
  by (simp add: poller_run_def down_at_start_def)

subsection \<open>The retention purge\<close>

lemma purge_old_live:
  "live (purge_old e c) =
     (live c)\<lparr>ticks := ticks (live c) + 1,
       tx := filter (\<lambda>r. \<not> text_less (fetched_at r) (cutoff e (live c))) (tx (live c)),
       tx_inputs := filter (\<lambda>r. ti_txid r \<in> set (map tx_txid
          (filter (\<lambda>r. \<not> text_less (fetched_at r) (cutoff e (live c))) (tx (live c)))))
          (tx_inputs (live c)),
       tx_outputs := filter (\<lambda>r. to_txid r \<in> set (map tx_txid
          (filter (\<lambda>r. \<not> text_less (fetched_at r) (cutoff e (live c))) (tx (live c)))))
          (tx_outputs (live c)),
       rbf_txs := filter (\<lambda>r. \<not> text_less (added_at r) (cutoff e (live c))) (rbf_txs (live c)),
       replacements := filter (\<lambda>r. \<not> text_less (detected_at r) (cutoff e (live c)))
          (replacements (live c))\<rparr>"
  by (simp add: purge_old_def Let_def commit_def cutoff_def)

lemma purge_old_committed: "committed (purge_old e c) = live (purge_old e c)"
  by (simp add: purge_old_def Let_def commit_def)

text \<open>
  C4. After \<^verbatim>\<open>purge_old\<close>: every change-input row is still there; every
  transaction, candidate and replacement row whose timestamp is before the cutoff is
  gone; every input and output row that remains has a transaction row with its
  txid; and the result is committed. A timestamp is before the cutoff when its ISO
  text compares below the ISO text of the clock reading minus seven days, which is how
  the DELETE statements compare them.
\<close>

theorem purge_old_retention:
  "change_inputs (live (purge_old e c)) = change_inputs (live c) \<and>
   (\<forall>r \<in> set (tx (live c)).
      text_less (fetched_at r) (cutoff e (live c)) \<longrightarrow> r \<notin> set (tx (live (purge_old e c)))) \<and>
   (\<forall>r \<in> set (rbf_txs (live c)).
      text_less (added_at r) (cutoff e (live c)) \<longrightarrow>
      r \<notin> set (rbf_txs (live (purge_old e c)))) \<and>
   (\<forall>r \<in> set (replacements (live c)).
      text_less (detected_at r) (cutoff e (live c)) \<longrightarrow>
      r \<notin> set (replacements (live (purge_old e c)))) \<and>
   (\<forall>r \<in> set (tx_inputs (live (purge_old e c))).
      \<exists>t \<in> set (tx (live (purge_old e c))). tx_txid t = ti_txid r) \<and>
   (\<forall>r \<in> set (tx_outputs (live (purge_old e c))).
      \<exists>t \<in> set (tx (live (purge_old e c))). tx_txid t = to_txid r) \<and>
   committed (purge_old e c) = live (purge_old e c)"
  unfolding purge_old_committed purge_old_live by auto

lemma aged_cutoff: "cutoff demo_env (live aged_conn) = ''1970-01-08T00:00:00''"
  by (simp add: cutoff_def demo_env_def demo_iso_def aged_conn_def aged_state_def
      HISTORY_DAYS_def)

lemma aged_purged:
  "live (purge_old demo_env aged_conn) =
     \<lparr>tx = [\<lparr>tx_txid = ''new'', fetched_at = ''1970-01-15T00:00:00'', tx_fee = 2, tx_vsize = 2\<rparr>],
      tx_inputs =
           [\<lparr>ti_txid = ''new'', prev_txid = ''P'', prev_vout = 0, ti_address = Some ''X'',
             ti_value = Some 5, ti_sequence = 0\<rparr>],
      tx_outputs =
           [\<lparr>to_txid = ''new'', vout_index = 0, to_address = Some ''B'', to_value = Some 3\<rparr>],
      rbf_txs = [\<lparr>rbf_txid = ''new'', added_at = ''1970-01-15T00:00:00''\<rparr>],
      replacements = [],
      change_inputs =
           [\<lparr>ci_orig_txid = ''older'', ci_new_txid = ''old'', ci_change_address = Some ''B'',
             ci_change_vout_index = 0, input_address = Some ''X'',
             ci_detected_at = ''1970-01-01T00:00:00''\<rparr>],
      ticks = 1\<rparr>"
  unfolding purge_old_live aged_cutoff
  by (simp add: aged_conn_def aged_state_def)

theorem purge_old_retention_witness:
  "text_less ''1970-01-01T00:00:00'' (cutoff demo_env (live aged_conn)) \<and>
   change_inputs (live (purge_old demo_env aged_conn)) = change_inputs aged_state \<and>
   map tx_txid (tx (live aged_conn)) = [''old'', ''new''] \<and>
   map tx_txid (tx (live (purge_old demo_env aged_conn))) = [''new''] \<and>
   map ti_txid (tx_inputs (live (purge_old demo_env aged_conn))) = [''new''] \<and>
   map to_txid (tx_outputs (live (purge_old demo_env aged_conn))) = [''new''] \<and>
   map rbf_txid (rbf_txs (live (purge_old demo_env aged_conn))) = [''new''] \<and>
   replacements (live (purge_old demo_env aged_conn)) = []"
  using purge_old_retention [of demo_env aged_conn]
  unfolding aged_purged aged_cutoff
  by (simp add: aged_conn_def aged_state_def)

subsection \<open>Idempotent inserts and NULL key columns\<close>

text \<open>With no NULL in the key a second insert of the same key changes nothing.\<close>

lemma insert_replacement_idem:
  "change_address r \<noteq> None \<Longrightarrow>
   insert_replacement r (insert_replacement r rows) = insert_replacement r rows"
  by (auto simp add: insert_replacement_def replacement_conflict_def)

lemma insert_change_input_idem:
  "ci_change_address r \<noteq> None \<Longrightarrow> input_address r \<noteq> None \<Longrightarrow>
   insert_change_input r (insert_change_input r rows) = insert_change_input r rows"
  by (auto simp add: insert_change_input_def change_input_conflict_def)

lemma insert_tx_idem: "insert_tx r (insert_tx r rows) = insert_tx r rows"
  by (auto simp add: insert_tx_def tx_conflict_def)

lemma insert_rbf_idem: "insert_rbf r (insert_rbf r rows) = insert_rbf r rows"
  by (auto simp add: insert_rbf_def rbf_conflict_def)

lemma insert_replacement_null:
  "change_address r = None \<Longrightarrow> insert_replacement r rows = rows @ [r]"
  by (simp add: insert_replacement_def replacement_conflict_def)

lemma insert_change_input_null:
  "input_address r = None \<Longrightarrow> insert_change_input r rows = rows @ [r]"
  by (simp add: insert_change_input_def change_input_conflict_def)

text \<open>
  C3. The specification: inserting the same key twice leaves one row, in \<open>replacements\<close> and
  in \<open>change_inputs\<close>. The address columns of both keys are nullable and a NULL
  never conflicts, so a row with a NULL address is stored twice: by the insert alone,
  and in a run, when \<open>N\<close> replaces \<open>O\<close> and both spend the same two outpoints, one of
  them without an address. The detector then runs twice for the pair \<open>(O, N)\<close> and the
  mapping to the NULL input address is in the table twice.
\<close>

theorem null_key_inserted_twice:
  "insert_change_input null_mapping (insert_change_input null_mapping []) =
     [null_mapping, null_mapping] \<and>
   insert_replacement null_replacement (insert_replacement null_replacement []) =
     [null_replacement, null_replacement] \<and>
   change_inputs (final (process_all demo_env [''O'', ''N''] empty_state)) =
     [null_mapping, null_mapping\<lparr>input_address := Some ''X''\<rparr>, null_mapping]"
proof -
  have "insert_change_input null_mapping (insert_change_input null_mapping []) =
     [null_mapping, null_mapping]"
    by (simp add: insert_change_input_def change_input_conflict_def null_mapping_def)
  moreover have "insert_replacement null_replacement (insert_replacement null_replacement []) =
     [null_replacement, null_replacement]"
    by (simp add: insert_replacement_def replacement_conflict_def null_replacement_def)
  moreover have "change_inputs (final (process_all demo_env [''O'', ''N''] empty_state)) =
     [null_mapping, null_mapping\<lparr>input_address := Some ''X''\<rparr>, null_mapping]"
    by code_simp
  ultimately show ?thesis by blast
qed

subsection \<open>Output rows of a transaction that is processed twice\<close>

lemma poller_emits_reentry_twice:
  "poller_run reentry_mempool 2 =
     Polling \<lparr>last = {''good''}, emitted = [Added ''good'', Added ''good'']\<rparr>"
  by (simp add: poller_run_def reentry_mempool_def poll_cycle_def numeral_2_eq_2)

text \<open>
  C6. The specification: \<open>(txid, vout_index)\<close> is unique in \<open>tx_outputs\<close> in every reachable
  state, also when a txid is processed again. The table has no key and the insert is a
  plain INSERT: when \<open>good\<close> leaves the mempool and comes back, the poller emits it
  twice, the worker processes it twice, and the committed table holds the output
  \<open>(good, 0)\<close> twice (while \<open>tx\<close>, keyed and written with INSERT OR IGNORE, holds one
  row).
\<close>

theorem reprocessed_txid_duplicates_outputs:
  "map (\<lambda>r. (to_txid r, vout_index r))
     (tx_outputs (committed (wconn (worker_of
        (run demo_env [Added ''good'', Added ''good'', Stop] main_worker))))) =
     [(''good'', 0), (''good'', 0)] \<and>
   map tx_txid
     (tx (committed (wconn (worker_of
        (run demo_env [Added ''good'', Added ''good'', Stop] main_worker))))) = [''good'']"
  by code_simp

subsection \<open>Failures while a batch is flushed\<close>

text \<open>A fetch that fails is skipped: the store is as before and nothing is raised.\<close>

lemma failed_fetch_is_skipped:
  "fetch_tx e t = None \<Longrightarrow> process_added_nocommit e t s = Inr s"
  by (simp add: process_added_nocommit_def)

lemma fetch_tx_None_iff: "fetch_tx e t = None \<longleftrightarrow> (\<forall>j. api e t \<noteq> Http200 j)"
  by (simp add: fetch_tx_def split: http_response.splits)

text \<open>
  C8. The specification: a transaction that cannot be processed fails alone; the other
  buffered txids are still processed and the worker's loop goes on. In the code the
  KeyError of \<^verbatim>\<open>vin["txid"]\<close> leaves \<^verbatim>\<open>process_added_nocommit\<close>,
  \<^verbatim>\<open>_flush_batch\<close> and the loop of \<^verbatim>\<open>run\<close>; the \<^verbatim>\<open>finally\<close> block
  flushes the same buffer again and raises again. With \<open>bad\<close> and \<open>good\<close> buffered,
  the thread dies: \<open>good\<close> is never processed, the event after them is never read,
  nothing is committed and the handle stays open.
\<close>

theorem malformed_tx_kills_worker:
  "run demo_env [Added ''bad'', Added ''good'', Added ''O''] pair_worker =
     Died (KeyError ''txid'')
       \<lparr>buffer = [''bad'', ''good''],
        wconn = \<lparr>live = empty_state
                    \<lparr>tx := [\<lparr>tx_txid = ''bad'', fetched_at = ''1970-01-15T00:00:00'',
                              tx_fee = 1, tx_vsize = 1\<rparr>],
                     ticks := 2\<rparr>,
                 committed = empty_state, closed = False\<rparr>,
        batch_size = 2\<rparr>"
  by code_simp

subsection \<open>The dict of a transaction's outputs\<close>

lemma dict_put_keys: "fst ` set (dict_put d k v) = insert k (fst ` set d)"
  by (induction d k v rule: dict_put.induct) auto

lemma dict_put_distinct: "distinct (map fst d) \<Longrightarrow> distinct (map fst (dict_put d k v))"
proof (induction d k v rule: dict_put.induct)
  case (1 k v)
  then show ?case by simp
next
  case (2 k' v' d k v)
  have "fst ` set (dict_put d k v) = insert k (fst ` set d)"
    by (rule dict_put_keys)
  with 2 show ?case by auto
qed

lemma foldl_dict_put_distinct:
  "distinct (map fst d) \<Longrightarrow>
   distinct (map fst (foldl (\<lambda>d (i, a, v). dict_put d i (a, v)) d rows))"
proof (induction rows arbitrary: d)
  case Nil
  then show ?case by simp
next
  case (Cons r rows)
  obtain i a v where r: "r = (i, a, v)" by (cases r) auto
  from Cons.prems have "distinct (map fst (dict_put d i (a, v)))"
    by (rule dict_put_distinct)
  from Cons.IH [OF this] show ?case by (simp add: r)
qed

lemma by_idx_distinct: "distinct (map fst (by_idx rows))"
  unfolding by_idx_def by (rule foldl_dict_put_distinct) simp

lemma dict_get_entry:
  "distinct (map fst d) \<Longrightarrow> dict_get d i = Some av \<longleftrightarrow> (i, av) \<in> set d"
  by (simp add: dict_get_def)

lemma dict_get_None: "dict_get d i = None \<longleftrightarrow> i \<notin> indices d"
  by (simp add: dict_get_def indices_def map_of_eq_None_iff)

subsection \<open>The loop of the detector\<close>

lemma diff_loop_mismatch:
  "\<forall>k \<in> indices es. dict_get nb k \<noteq> None \<Longrightarrow> (i, (a, v)) \<in> set es \<Longrightarrow>
   dict_get nb i = Some (a', v') \<Longrightarrow> a \<noteq> a' \<Longrightarrow> diff_loop es nb acc = Inr None"
proof (induction es nb acc rule: diff_loop.induct)
  case (1 nb diffs)
  then show ?case by simp
next
  case (2 idx orig_addr orig_val rest nb diffs)
  from "2.prems"(1) obtain na nv where g: "dict_get nb idx = Some (na, nv)"
    by (fastforce simp add: indices_def)
  show ?case
  proof (cases "orig_addr = na")
    case False
    with g show ?thesis by simp
  next
    case True
    with g "2.prems" have mem: "(i, (a, v)) \<in> set rest" by auto
    from "2.prems"(1) have pres: "\<forall>k \<in> indices rest. dict_get nb k \<noteq> None"
      by (simp add: indices_def)
    show ?thesis
    proof (cases "orig_val = nv")
      case True
      from "2.IH"(2) [OF g refl _ _ pres mem "2.prems"(3) "2.prems"(4)] \<open>orig_addr = na\<close> True g
      show ?thesis by simp
    next
      case False
      from "2.IH"(1) [OF g refl _ _ pres mem "2.prems"(3) "2.prems"(4)] \<open>orig_addr = na\<close> False g
      show ?thesis by simp
    qed
  qed
qed

lemma diff_loop_complete:
  "\<forall>(i, (a, v)) \<in> set es. address_at nb i = Some a \<Longrightarrow>
   diff_loop es nb acc = Inr (Some (acc @ diffs_of es nb))"
proof (induction es nb acc rule: diff_loop.induct)
  case (1 nb diffs)
  then show ?case by simp
next
  case (2 idx orig_addr orig_val rest nb diffs)
  from "2.prems" obtain nv where g: "dict_get nb idx = Some (orig_addr, nv)"
    by (auto simp add: address_at_def)
  from "2.prems" have rest: "\<forall>(i, (a, v)) \<in> set rest. address_at nb i = Some a" by simp
  show ?case
  proof (cases "orig_val = nv")
    case True
    from "2.IH"(2) [OF g refl _ _ rest] True g show ?thesis by simp
  next
    case False
    from "2.IH"(1) [OF g refl _ _ rest] False g show ?thesis by simp
  qed
qed

lemma diffs_of_mem:
  "d \<in> set (diffs_of es nb) \<longleftrightarrow>
   (\<exists>i a v a' v'. d = (i, a, v, v') \<and> (i, (a, v)) \<in> set es \<and>
      dict_get nb i = Some (a', v') \<and> v \<noteq> v')"
proof (induction es nb rule: diffs_of.induct)
  case (1 nb)
  then show ?case by simp
next
  case (2 idx orig_addr orig_val rest nb)
  show ?case
  proof (cases "dict_get nb idx")
    case None
    with "2.IH"(1) show ?thesis by auto
  next
    case (Some p)
    obtain na nv where p: "p = (na, nv)" by (cases p) auto
    show ?thesis
    proof (cases "orig_val = nv")
      case True
      with "2.IH"(3) [OF Some p [symmetric]] Some p show ?thesis by auto
    next
      case False
      with "2.IH"(2) [OF Some p [symmetric]] Some p show ?thesis by auto
    qed
  qed
qed

lemma diffs_of_keys_subset: "fst ` set (diffs_of es nb) \<subseteq> fst ` set es"
  by (force simp add: diffs_of_mem)

lemma diffs_of_distinct:
  "distinct (map fst es) \<Longrightarrow> distinct (map fst (diffs_of es nb))"
proof (induction es nb rule: diffs_of.induct)
  case (1 nb)
  then show ?case by simp
next
  case (2 idx orig_addr orig_val rest nb)
  have sub: "fst ` set (diffs_of rest nb) \<subseteq> fst ` set rest"
    by (rule diffs_of_keys_subset)
  from "2.prems" have d: "distinct (map fst rest)" and n: "idx \<notin> fst ` set rest" by auto
  show ?case
  proof (cases "dict_get nb idx")
    case None
    with "2.IH"(1) d show ?thesis by simp
  next
    case (Some p)
    obtain na nv where p: "p = (na, nv)" by (cases p) auto
    show ?thesis
    proof (cases "orig_val = nv")
      case True
      with "2.IH"(3) [OF Some p [symmetric] _ d] Some p show ?thesis by simp
    next
      case False
      with "2.IH"(2) [OF Some p [symmetric] _ d] Some p sub n show ?thesis by auto
    qed
  qed
qed

lemma diffs_of_indices:
  assumes "distinct (map fst ob)"
  shows "fst ` set (diffs_of ob nb) = differing_indices ob nb"
proof (rule set_eqI)
  fix i
  have "i \<in> fst ` set (diffs_of ob nb) \<longleftrightarrow>
        (\<exists>a v a' v'. (i, (a, v)) \<in> set ob \<and> dict_get nb i = Some (a', v') \<and> v \<noteq> v')"
    by (force simp add: diffs_of_mem)
  also have "\<dots> \<longleftrightarrow> (\<exists>a v a' v'. dict_get ob i = Some (a, v) \<and>
        dict_get nb i = Some (a', v') \<and> v \<noteq> v')"
    using assms by (simp add: dict_get_entry)
  also have "\<dots> \<longleftrightarrow> i \<in> differing_indices ob nb"
  proof (cases "dict_get ob i")
    case None
    moreover from None have "i \<notin> indices ob" by (simp add: dict_get_None)
    ultimately show ?thesis by (simp add: differing_indices_def)
  next
    case so: (Some p)
    show ?thesis
    proof (cases "dict_get nb i")
      case None
      moreover from None have "i \<notin> indices nb" by (simp add: dict_get_None)
      ultimately show ?thesis by (simp add: differing_indices_def)
    next
      case sn: (Some q)
      from so have io: "i \<in> indices ob" using dict_get_None [of ob i] by simp
      from sn have inn: "i \<in> indices nb" using dict_get_None [of nb i] by simp
      from so sn io inn show ?thesis
        by (cases p; cases q) (simp add: differing_indices_def value_at_def)
    qed
  qed
  finally show "i \<in> fst ` set (diffs_of ob nb) \<longleftrightarrow> i \<in> differing_indices ob nb" .
qed

lemma diffs_of_length:
  assumes "distinct (map fst ob)"
  shows "length (diffs_of ob nb) = card (differing_indices ob nb)"
proof -
  have "length (diffs_of ob nb) = length (map fst (diffs_of ob nb))" by simp
  also have "\<dots> = card (set (map fst (diffs_of ob nb)))"
    using diffs_of_distinct [OF assms] by (simp only: distinct_card)
  also have "\<dots> = card (differing_indices ob nb)"
    using diffs_of_indices [OF assms] by simp
  finally show ?thesis .
qed

lemma outputs_by_idx_distinct: "distinct (map fst (outputs_by_idx t s))"
  by (simp add: outputs_by_idx_def by_idx_distinct)

lemma single_diff:
  assumes dist: "distinct (map fst ob)"
    and one: "differing_indices ob nb = {i}"
    and vo: "value_at ob i = Some v" and vn: "value_at nb i = Some v'"
    and ao: "address_at ob i = Some a"
  shows "diffs_of ob nb = [(i, a, v, v')]"
proof -
  have "length (diffs_of ob nb) = 1"
    using diffs_of_length [OF dist, of nb] one by simp
  then obtain d where d: "diffs_of ob nb = [d]"
    by (cases "diffs_of ob nb") auto
  then have "d \<in> set (diffs_of ob nb)" by simp
  then obtain j b w b' w' where dj: "d = (j, b, w, w')" and mem: "(j, (b, w)) \<in> set ob"
    and gn: "dict_get nb j = Some (b', w')"
    unfolding diffs_of_mem by blast
  have "fst ` set (diffs_of ob nb) = {i}"
    using diffs_of_indices [OF dist, of nb] one by simp
  with d dj have ji: "j = i" by simp
  from mem dist have go: "dict_get ob j = Some (b, w)" by (simp add: dict_get_entry)
  from go ji vo have "w = v" by (simp add: value_at_def)
  moreover from go ji ao have "b = a" by (simp add: address_at_def)
  moreover from gn ji vn have "w' = v'" by (simp add: value_at_def)
  ultimately show ?thesis using d dj ji by simp
qed

lemma diff_loop_agreeing:
  assumes dist: "distinct (map fst ob)"
    and keys: "indices ob = indices nb"
    and agree: "\<forall>i \<in> indices ob \<inter> indices nb. address_at ob i = address_at nb i"
  shows "diff_loop ob nb [] = Inr (Some (diffs_of ob nb))"
proof -
  have "\<forall>(i, (a, v)) \<in> set ob. address_at nb i = Some a"
  proof (clarify)
    fix i a v assume mem: "(i, (a, v)) \<in> set ob"
    then have "i \<in> indices ob" by (force simp add: indices_def)
    with keys agree have "address_at ob i = address_at nb i" by simp
    moreover from mem dist have "dict_get ob i = Some (a, v)" by (simp add: dict_get_entry)
    ultimately show "address_at nb i = Some a" by (simp add: address_at_def)
  qed
  from diff_loop_complete [OF this, of "[]"] show ?thesis by simp
qed

lemma diff_loop_disagreeing:
  assumes dist: "distinct (map fst ob)"
    and keys: "indices ob = indices nb"
    and differ: "i \<in> indices ob \<inter> indices nb" "address_at ob i \<noteq> address_at nb i"
  shows "diff_loop ob nb [] = Inr None"
proof -
  have pres: "\<forall>k \<in> indices ob. dict_get nb k \<noteq> None"
    using keys by (simp add: dict_get_None)
  from differ(1) obtain a v where mem: "(i, (a, v)) \<in> set ob"
    by (auto simp add: indices_def)
  with dist have go: "dict_get ob i = Some (a, v)" by (simp add: dict_get_entry)
  from differ(1) pres obtain a' v' where gn: "dict_get nb i = Some (a', v')" by fastforce
  from go gn differ(2) have "a \<noteq> a'" by (simp add: address_at_def)
  from diff_loop_mismatch [OF pres mem gn this] show ?thesis .
qed

text \<open>
  C2. When the two transactions do not have the same output indices, or an address
  differs at an index, or the number of indices whose value differs is not one, or at
  the one differing index the new value is not below the old one, the detector
  returns without raising and the store is as before: no row is written and the clock
  is not read.
\<close>

theorem record_replacement_rejects:
  assumes "indices (outputs_by_idx orig s) \<noteq> indices (outputs_by_idx new s) \<or>
      (\<exists>i \<in> indices (outputs_by_idx orig s) \<inter> indices (outputs_by_idx new s).
          address_at (outputs_by_idx orig s) i \<noteq> address_at (outputs_by_idx new s) i) \<or>
      card (differing_indices (outputs_by_idx orig s) (outputs_by_idx new s)) \<noteq> 1 \<or>
      (\<exists>i ov nv. differing_indices (outputs_by_idx orig s) (outputs_by_idx new s) = {i} \<and>
          value_at (outputs_by_idx orig s) i = Some (Some ov) \<and>
          value_at (outputs_by_idx new s) i = Some (Some nv) \<and> nv \<ge> ov)"
  shows "record_replacement e orig new s = Inr s"
proof -
  let ?ob = "outputs_by_idx orig s" and ?nb = "outputs_by_idx new s"
  have dist: "distinct (map fst ?ob)" by (rule outputs_by_idx_distinct)
  show ?thesis
  proof (cases "indices ?ob = indices ?nb")
    case False
    then show ?thesis
      by (simp add: record_replacement_def Let_def indices_def outputs_by_idx_def)
  next
    case keys: True
    then have keys': "set (map fst (by_idx (select_outputs orig s))) =
        set (map fst (by_idx (select_outputs new s)))"
      by (simp add: indices_def outputs_by_idx_def)
    show ?thesis
    proof (cases "\<exists>i \<in> indices ?ob \<inter> indices ?nb. address_at ?ob i \<noteq> address_at ?nb i")
      case True
      then obtain i where "i \<in> indices ?ob \<inter> indices ?nb"
        "address_at ?ob i \<noteq> address_at ?nb i" by blast
      from diff_loop_disagreeing [OF dist keys this]
      have "diff_loop (by_idx (select_outputs orig s)) (by_idx (select_outputs new s)) [] =
          Inr None"
        by (simp add: outputs_by_idx_def)
      with keys' show ?thesis by (simp add: record_replacement_def Let_def)
    next
      case False
      then have agree: "\<forall>i \<in> indices ?ob \<inter> indices ?nb. address_at ?ob i = address_at ?nb i"
        by blast
      from diff_loop_agreeing [OF dist keys agree]
      have loop: "diff_loop (by_idx (select_outputs orig s))
          (by_idx (select_outputs new s)) [] = Inr (Some (diffs_of ?ob ?nb))"
        by (simp add: outputs_by_idx_def)
      show ?thesis
      proof (cases "card (differing_indices ?ob ?nb) = 1")
        case False
        then have "length (diffs_of ?ob ?nb) \<noteq> 1"
          using diffs_of_length [OF dist, of ?nb] by simp
        with keys' loop show ?thesis by (simp add: record_replacement_def Let_def)
      next
        case True
        with assms keys False obtain i ov nv where
          one: "differing_indices ?ob ?nb = {i}"
          and vo: "value_at ?ob i = Some (Some ov)"
          and vn: "value_at ?nb i = Some (Some nv)" and ge: "nv \<ge> ov"
          by blast
        from vo obtain a where ao: "address_at ?ob i = Some a"
          by (auto simp add: value_at_def address_at_def)
        from single_diff [OF dist one vo vn ao]
        have "diffs_of ?ob ?nb = [(i, a, Some ov, Some nv)]" .
        with keys' loop ge show ?thesis by (simp add: record_replacement_def Let_def)
      qed
    qed
  qed
qed

subsection \<open>The rows the detector writes\<close>

lemma conflict_after_other_address:
  assumes "b \<noteq> a"
  shows "change_input_conflict (mapping_row e s orig new addr idx b)
           (insert_change_input (mapping_row e s orig new addr idx a) rows) =
         change_input_conflict (mapping_row e s orig new addr idx b) rows"
  using assms
  by (auto simp add: insert_change_input_def change_input_conflict_def mapping_row_def)

lemma foldl_insert_change_input:
  assumes "distinct as"
  shows "foldl (\<lambda>st inp. st\<lparr>change_inputs :=
             insert_change_input (mapping_row e s orig new addr idx inp) (change_inputs st)\<rparr>)
           s0 as =
         s0\<lparr>change_inputs := change_inputs s0 @
             map (mapping_row e s orig new addr idx)
               (filter (\<lambda>a. \<not> change_input_conflict (mapping_row e s orig new addr idx a)
                                (change_inputs s0)) as)\<rparr>"
  using assms
proof (induction as arbitrary: s0)
  case Nil
  then show ?case by simp
next
  case (Cons a rest)
  let ?mk = "mapping_row e s orig new addr idx"
  let ?s1 = "s0\<lparr>change_inputs := insert_change_input (?mk a) (change_inputs s0)\<rparr>"
  from Cons.prems have d: "distinct rest" and n: "a \<notin> set rest" by auto
  have same: "filter (\<lambda>b. \<not> change_input_conflict (?mk b) (change_inputs ?s1)) rest =
              filter (\<lambda>b. \<not> change_input_conflict (?mk b) (change_inputs s0)) rest"
  proof (rule filter_cong [OF refl])
    fix b assume "b \<in> set rest"
    with n have "b \<noteq> a" by auto
    then show "(\<not> change_input_conflict (?mk b) (change_inputs ?s1)) =
               (\<not> change_input_conflict (?mk b) (change_inputs s0))"
      by (simp add: conflict_after_other_address)
  qed
  from Cons.IH [OF d, of ?s1] same show ?case
    by (simp add: insert_change_input_def)
qed

lemma select_distinct_addresses_distinct: "distinct (select_distinct_addresses t s)"
  by (simp add: select_distinct_addresses_def)

lemma select_distinct_addresses_set:
  "set (select_distinct_addresses t s) = ti_address ` {r \<in> set (tx_inputs s). ti_txid r = t}"
  by (auto simp add: select_distinct_addresses_def)

lemma no_conflict_on_fresh_pair:
  assumes "\<forall>r \<in> set rows. ci_orig_txid r \<noteq> orig \<or> ci_new_txid r \<noteq> new"
  shows "\<not> change_input_conflict (mapping_row e s orig new addr idx a) rows"
  using assms by (auto simp add: change_input_conflict_def mapping_row_def)
lemma select_distinct_addresses_upd:
  "select_distinct_addresses t (s\<lparr>ticks := n, replacements := rs\<rparr>) =
   select_distinct_addresses t s"
  by (simp add: select_distinct_addresses_def)

text \<open>
  C1. When the two transactions have the same output indices and the same address at
  every index, and exactly one index \<open>idx\<close> has a different value, there \<open>nv\<close>, below
  the old \<open>ov\<close>: the detector returns; it has read the clock once, made one
  INSERT OR IGNORE of the replacement event for the address and index of \<open>idx\<close> with
  \<open>ov\<close>, \<open>nv\<close> and \<open>ov - nv\<close>, and one INSERT OR IGNORE of a mapping row for each
  distinct input address of the original transaction, and changed nothing else. When
  the store holds no row of that key yet, the event is the one new row of
  \<open>replacements\<close>; when it holds no mapping of the pair yet, the new rows of
  \<open>change_inputs\<close> are one per distinct input address.
\<close>

theorem record_replacement_records:
  assumes keys: "indices (outputs_by_idx orig s) = indices (outputs_by_idx new s)"
    and agree: "\<forall>i \<in> indices (outputs_by_idx orig s) \<inter> indices (outputs_by_idx new s).
        address_at (outputs_by_idx orig s) i = address_at (outputs_by_idx new s) i"
    and one: "differing_indices (outputs_by_idx orig s) (outputs_by_idx new s) = {idx}"
    and ao: "address_at (outputs_by_idx orig s) idx = Some addr"
    and vo: "value_at (outputs_by_idx orig s) idx = Some (Some ov)"
    and vn: "value_at (outputs_by_idx new s) idx = Some (Some nv)"
    and lt: "nv < ov"
  shows "record_replacement e orig new s =
      Inr (s\<lparr>ticks := ticks s + 1,
             replacements :=
               insert_replacement (replacement_row e s orig new addr idx ov nv) (replacements s),
             change_inputs := change_inputs s @
               map (mapping_row e s orig new addr idx)
                 (filter (\<lambda>a. \<not> change_input_conflict (mapping_row e s orig new addr idx a)
                                  (change_inputs s))
                    (select_distinct_addresses orig s))\<rparr>) \<and>
    (\<not> replacement_conflict (replacement_row e s orig new addr idx ov nv) (replacements s) \<longrightarrow>
       replacements (final (record_replacement e orig new s)) =
         replacements s @ [replacement_row e s orig new addr idx ov nv]) \<and>
    ((\<forall>r \<in> set (change_inputs s). ci_orig_txid r \<noteq> orig \<or> ci_new_txid r \<noteq> new) \<longrightarrow>
       change_inputs (final (record_replacement e orig new s)) =
         change_inputs s @
           map (mapping_row e s orig new addr idx) (select_distinct_addresses orig s)) \<and>
    distinct (select_distinct_addresses orig s) \<and>
    set (select_distinct_addresses orig s) =
      ti_address ` {r \<in> set (tx_inputs s). ti_txid r = orig}"
proof -
  let ?ob = "outputs_by_idx orig s" and ?nb = "outputs_by_idx new s"
  let ?mk = "mapping_row e s orig new addr idx"
  let ?row = "replacement_row e s orig new addr idx ov nv"
  let ?s2 = "s\<lparr>ticks := ticks s + 1, replacements := insert_replacement ?row (replacements s)\<rparr>"
  have dist: "distinct (map fst ?ob)" by (rule outputs_by_idx_distinct)
  have keys': "set (map fst (by_idx (select_outputs orig s))) =
      set (map fst (by_idx (select_outputs new s)))"
    using keys by (simp add: indices_def outputs_by_idx_def)
  from diff_loop_agreeing [OF dist keys agree]
  have loop: "diff_loop (by_idx (select_outputs orig s)) (by_idx (select_outputs new s)) [] =
      Inr (Some (diffs_of ?ob ?nb))"
    by (simp add: outputs_by_idx_def)
  from single_diff [OF dist one vo vn ao]
  have diffs: "diffs_of ?ob ?nb = [(idx, addr, Some ov, Some nv)]" .
  have fold: "foldl (\<lambda>st inp. st\<lparr>change_inputs :=
             insert_change_input (?mk inp) (change_inputs st)\<rparr>)
           ?s2 (select_distinct_addresses orig s) =
         ?s2\<lparr>change_inputs := change_inputs ?s2 @
             map ?mk (filter (\<lambda>a. \<not> change_input_conflict (?mk a) (change_inputs ?s2))
                        (select_distinct_addresses orig s))\<rparr>"
    by (rule foldl_insert_change_input) (rule select_distinct_addresses_distinct)
  have "record_replacement e orig new s =
      Inr (foldl (\<lambda>st inp. st\<lparr>change_inputs :=
             insert_change_input (?mk inp) (change_inputs st)\<rparr>)
           ?s2 (select_distinct_addresses orig s))"
    using keys' loop diffs lt
    by (simp add: record_replacement_def Let_def replacement_row_def mapping_row_def
        select_distinct_addresses_upd)
  then have eq: "record_replacement e orig new s =
      Inr (s\<lparr>ticks := ticks s + 1,
             replacements := insert_replacement ?row (replacements s),
             change_inputs := change_inputs s @
               map ?mk (filter (\<lambda>a. \<not> change_input_conflict (?mk a) (change_inputs s))
                          (select_distinct_addresses orig s))\<rparr>)"
    unfolding fold by simp
  have fresh_repl: "\<not> replacement_conflict ?row (replacements s) \<longrightarrow>
       replacements (final (record_replacement e orig new s)) = replacements s @ [?row]"
    unfolding eq by (simp add: final_def insert_replacement_def)
  have fresh_maps: "(\<forall>r \<in> set (change_inputs s). ci_orig_txid r \<noteq> orig \<or> ci_new_txid r \<noteq> new) \<longrightarrow>
       change_inputs (final (record_replacement e orig new s)) =
         change_inputs s @ map ?mk (select_distinct_addresses orig s)"
  proof
    assume "\<forall>r \<in> set (change_inputs s). ci_orig_txid r \<noteq> orig \<or> ci_new_txid r \<noteq> new"
    then have "\<And>a. \<not> change_input_conflict (?mk a) (change_inputs s)"
      by (rule no_conflict_on_fresh_pair)
    then show "change_inputs (final (record_replacement e orig new s)) =
         change_inputs s @ map ?mk (select_distinct_addresses orig s)"
      unfolding eq by (simp add: final_def)
  qed
  from eq fresh_repl fresh_maps select_distinct_addresses_distinct [of orig s]
    select_distinct_addresses_set [of orig s]
  show ?thesis by blast
qed

subsection \<open>The scenarios of the specification\<close>

lemma select_outputs_scenario:
  "select_outputs ''orig'' (scenario news) = [(0, Some ''A'', Some 1000), (1, Some ''B'', Some 500)]"
  "select_outputs ''new'' (scenario news) = map (\<lambda>(i, a, v). (i, Some a, Some v)) news"
proof -
  have "filter (\<lambda>r. to_txid r = ''orig'') (map (output_row ''new'') news) = []"
    by (induction news) (auto simp add: output_row_def)
  then show "select_outputs ''orig'' (scenario news) =
      [(0, Some ''A'', Some 1000), (1, Some ''B'', Some 500)]"
    by (simp add: select_outputs_def scenario_def output_row_def)
  have "map (\<lambda>r. (vout_index r, to_address r, to_value r))
          (filter (\<lambda>r. to_txid r = ''new'') (map (output_row ''new'') news)) =
        map (\<lambda>(i, a, v). (i, Some a, Some v)) news"
    by (induction news) (auto simp add: output_row_def)
  then show "select_outputs ''new'' (scenario news) =
      map (\<lambda>(i, a, v). (i, Some a, Some v)) news"
    by (simp add: select_outputs_def scenario_def output_row_def)
qed

lemma scenario_orig_dict:
  "outputs_by_idx ''orig'' (scenario news) =
     [(0, (Some ''A'', Some 1000)), (1, (Some ''B'', Some 500))]"
  by (simp add: outputs_by_idx_def by_idx_def select_outputs_scenario)

lemma scenario_new_dict:
  "i0 \<noteq> i1 \<Longrightarrow> outputs_by_idx ''new'' (scenario [(i0, a0, v0), (i1, a1, v1)]) =
     [(i0, (Some a0, Some v0)), (i1, (Some a1, Some v1))]"
  by (simp add: outputs_by_idx_def by_idx_def select_outputs_scenario)

lemma scenario_fewer_dict:
  "outputs_by_idx ''new'' (scenario [(i0, a0, v0)]) = [(i0, (Some a0, Some v0))]"
  by (simp add: outputs_by_idx_def by_idx_def select_outputs_scenario)

lemma scenario_addresses:
  "select_distinct_addresses ''orig'' (scenario news) = [Some ''X'', None]"
  by (simp add: select_distinct_addresses_def scenario_def input_row_def)

lemma differing_indices_pair:
  "i0 \<noteq> i1 \<Longrightarrow>
   differing_indices [(i0, (a0, v0)), (i1, (a1, v1))] [(i0, (b0, w0)), (i1, (b1, w1))] =
     (if v0 \<noteq> w0 then {i0} else {}) \<union> (if v1 \<noteq> w1 then {i1} else {})"
  by (auto simp add: differing_indices_def indices_def value_at_def dict_get_def)

theorem record_replacement_records_witness:
  "record_replacement demo_env ''orig'' ''new'' scenario_A =
     Inr (scenario_A
       \<lparr>ticks := 6,
        replacements :=
          [\<lparr>orig_txid = ''orig'', new_txid = ''new'', change_address = Some ''B'',
            change_vout_index = 1, old_value = 500, new_value = 480, diff = 20,
            detected_at = ''1970-01-15T00:00:00''\<rparr>],
        change_inputs :=
          [\<lparr>ci_orig_txid = ''orig'', ci_new_txid = ''new'', ci_change_address = Some ''B'',
            ci_change_vout_index = 1, input_address = Some ''X'',
            ci_detected_at = ''1970-01-15T00:00:00''\<rparr>,
           \<lparr>ci_orig_txid = ''orig'', ci_new_txid = ''new'', ci_change_address = Some ''B'',
            ci_change_vout_index = 1, input_address = None,
            ci_detected_at = ''1970-01-15T00:00:00''\<rparr>]\<rparr>)"
proof -
  let ?ob = "outputs_by_idx ''orig'' scenario_A" and ?nb = "outputs_by_idx ''new'' scenario_A"
  have ob: "?ob = [(0, (Some ''A'', Some 1000)), (1, (Some ''B'', Some 500))]"
    by (simp add: scenario_A_def scenario_orig_dict)
  have nb: "?nb = [(0, (Some ''A'', Some 1000)), (1, (Some ''B'', Some 480))]"
    by (simp add: scenario_A_def scenario_new_dict)
  have keys: "indices ?ob = indices ?nb"
    unfolding ob nb by (simp add: indices_def)
  have agree: "\<forall>i \<in> indices ?ob \<inter> indices ?nb. address_at ?ob i = address_at ?nb i"
    unfolding ob nb by (simp add: indices_def address_at_def dict_get_def)
  have one: "differing_indices ?ob ?nb = {1}"
    unfolding ob nb by (simp add: differing_indices_pair)
  have ao: "address_at ?ob 1 = Some (Some ''B'')"
    unfolding ob by (simp add: address_at_def dict_get_def)
  have vo: "value_at ?ob 1 = Some (Some 500)"
    unfolding ob by (simp add: value_at_def dict_get_def)
  have vn: "value_at ?nb 1 = Some (Some 480)"
    unfolding nb by (simp add: value_at_def dict_get_def)
  have lt: "(480::int) < 500" by simp
  have empty: "replacements scenario_A = []" "change_inputs scenario_A = []"
    "ticks scenario_A = 5"
    by (simp_all add: scenario_A_def scenario_def)
  have addrs: "select_distinct_addresses ''orig'' scenario_A = [Some ''X'', None]"
    by (simp add: scenario_A_def scenario_addresses)
  from record_replacement_records [OF keys agree one ao vo vn lt, of demo_env]
  show ?thesis
    by (simp add: empty addrs replacement_row_def mapping_row_def insert_replacement_def
        replacement_conflict_def change_input_conflict_def demo_env_def demo_iso_def)
qed

theorem record_replacement_rejects_witness:
  "record_replacement demo_env ''orig'' ''new'' scenario_fewer = Inr scenario_fewer \<and>
   record_replacement demo_env ''orig'' ''new'' scenario_moved = Inr scenario_moved \<and>
   record_replacement demo_env ''orig'' ''new'' scenario_B = Inr scenario_B \<and>
   record_replacement demo_env ''orig'' ''new'' scenario_C = Inr scenario_C"
proof -
  have fewer: "indices (outputs_by_idx ''orig'' scenario_fewer) \<noteq>
      indices (outputs_by_idx ''new'' scenario_fewer)"
    by (simp add: scenario_fewer_def scenario_orig_dict scenario_fewer_dict indices_def)
  have moved: "\<exists>i \<in> indices (outputs_by_idx ''orig'' scenario_moved) \<inter>
        indices (outputs_by_idx ''new'' scenario_moved).
      address_at (outputs_by_idx ''orig'' scenario_moved) i \<noteq>
      address_at (outputs_by_idx ''new'' scenario_moved) i"
    by (simp add: scenario_moved_def scenario_orig_dict scenario_new_dict indices_def
        address_at_def dict_get_def)
  have two: "card (differing_indices (outputs_by_idx ''orig'' scenario_B)
      (outputs_by_idx ''new'' scenario_B)) \<noteq> 1"
    by (simp add: scenario_B_def scenario_orig_dict scenario_new_dict differing_indices_pair)
  have grown: "\<exists>i ov nv.
      differing_indices (outputs_by_idx ''orig'' scenario_C)
        (outputs_by_idx ''new'' scenario_C) = {i} \<and>
      value_at (outputs_by_idx ''orig'' scenario_C) i = Some (Some ov) \<and>
      value_at (outputs_by_idx ''new'' scenario_C) i = Some (Some nv) \<and> nv \<ge> ov"
    by (rule exI [of _ 1], rule exI [of _ 500], rule exI [of _ 520])
       (simp add: scenario_C_def scenario_orig_dict scenario_new_dict differing_indices_pair
          value_at_def dict_get_def)
  from fewer have 1: "record_replacement demo_env ''orig'' ''new'' scenario_fewer =
      Inr scenario_fewer"
    by (intro record_replacement_rejects) blast
  from moved have 2: "record_replacement demo_env ''orig'' ''new'' scenario_moved =
      Inr scenario_moved"
    by (intro record_replacement_rejects) blast
  from two have 3: "record_replacement demo_env ''orig'' ''new'' scenario_B = Inr scenario_B"
    by (intro record_replacement_rejects) blast
  from grown have 4: "record_replacement demo_env ''orig'' ''new'' scenario_C = Inr scenario_C"
    by (intro record_replacement_rejects) blast
  from 1 2 3 4 show ?thesis by blast
qed

subsection \<open>What the steps of the ingestion leave alone\<close>

lemma insert_inputs_returns:
  "insert_inputs t vins s b = Inr (s', b') \<Longrightarrow>
   b' = (b \<or> (\<exists>vin \<in> set vins. get_or (vin_sequence vin) 0 < RBF_SEQ_THRESHOLD)) \<and>
   tx s' = tx s \<and> tx_outputs s' = tx_outputs s \<and> rbf_txs s' = rbf_txs s \<and>
   replacements s' = replacements s \<and> change_inputs s' = change_inputs s \<and>
   ticks s' = ticks s"
proof (induction t vins s b rule: insert_inputs.induct)
  case (1 t s is_rbf)
  then show ?case by simp
next
  case (2 t vin rest s is_rbf)
  from "2.prems" obtain p v where p: "vin_txid vin = Some p" and v: "vin_vout vin = Some v"
    by (auto simp add: Let_def split: option.splits)
  from "2.prems" p v "2.IH" [OF refl refl p v] show ?case
    by (auto simp add: Let_def)
qed

lemma insert_inputs_raises:
  "insert_inputs t vins s b = Inl (err, s') \<Longrightarrow>
   tx s' = tx s \<and> tx_outputs s' = tx_outputs s \<and> rbf_txs s' = rbf_txs s \<and>
   replacements s' = replacements s \<and> change_inputs s' = change_inputs s \<and>
   ticks s' = ticks s"
proof (induction t vins s b rule: insert_inputs.induct)
  case (1 t s is_rbf)
  then show ?case by simp
next
  case (2 t vin rest s is_rbf)
  show ?case
  proof (cases "vin_txid vin")
    case None
    with "2.prems" show ?thesis by (simp add: Let_def)
  next
    case p: (Some p)
    show ?thesis
    proof (cases "vin_vout vin")
      case None
      with "2.prems" p show ?thesis by (simp add: Let_def)
    next
      case v: (Some v)
      from "2.prems" p v "2.IH" [OF refl refl p v] show ?thesis
        by (auto simp add: Let_def)
    qed
  qed
qed

lemma insert_outputs_keeps:
  "tx (insert_outputs t idx vouts s) = tx s \<and>
   tx_inputs (insert_outputs t idx vouts s) = tx_inputs s \<and>
   rbf_txs (insert_outputs t idx vouts s) = rbf_txs s \<and>
   replacements (insert_outputs t idx vouts s) = replacements s \<and>
   change_inputs (insert_outputs t idx vouts s) = change_inputs s \<and>
   ticks (insert_outputs t idx vouts s) = ticks s"
  by (induction t idx vouts s rule: insert_outputs.induct) simp_all

lemma foldl_change_inputs_keeps:
  "tx (foldl (\<lambda>st inp. st\<lparr>change_inputs := f st inp\<rparr>) s as) = tx s \<and>
   tx_inputs (foldl (\<lambda>st inp. st\<lparr>change_inputs := f st inp\<rparr>) s as) = tx_inputs s \<and>
   tx_outputs (foldl (\<lambda>st inp. st\<lparr>change_inputs := f st inp\<rparr>) s as) = tx_outputs s \<and>
   rbf_txs (foldl (\<lambda>st inp. st\<lparr>change_inputs := f st inp\<rparr>) s as) = rbf_txs s"
  by (induction as arbitrary: s) simp_all

lemma record_replacement_raises:
  "record_replacement e orig new s = Inl (err, s') \<Longrightarrow> s' = s"
  by (auto simp add: record_replacement_def Let_def
      split: if_splits sum.splits option.splits prod.splits)

lemma record_replacement_keeps:
  "record_replacement e orig new s = Inr s' \<Longrightarrow>
   tx s' = tx s \<and> tx_inputs s' = tx_inputs s \<and> tx_outputs s' = tx_outputs s \<and>
   rbf_txs s' = rbf_txs s"
  by (auto simp add: record_replacement_def Let_def foldl_change_inputs_keeps
      split: if_splits sum.splits option.splits prod.splits)

lemma record_replacement_final_keeps:
  "tx (final (record_replacement e orig new s)) = tx s \<and>
   tx_inputs (final (record_replacement e orig new s)) = tx_inputs s \<and>
   tx_outputs (final (record_replacement e orig new s)) = tx_outputs s \<and>
   rbf_txs (final (record_replacement e orig new s)) = rbf_txs s"
proof (cases "record_replacement e orig new s")
  case (Inl p)
  obtain err s' where "p = (err, s')" by (cases p) auto
  with Inl record_replacement_raises [of e orig new s err s'] show ?thesis
    by (simp add: final_def)
next
  case (Inr s')
  with record_replacement_keeps [of e orig new s s'] show ?thesis
    by (simp add: final_def)
qed

lemma replace_each_keeps:
  "tx (final (replace_each e t origs s)) = tx s \<and>
   tx_inputs (final (replace_each e t origs s)) = tx_inputs s \<and>
   tx_outputs (final (replace_each e t origs s)) = tx_outputs s \<and>
   rbf_txs (final (replace_each e t origs s)) = rbf_txs s"
proof (induction origs arbitrary: s)
  case Nil
  then show ?case by (simp add: final_def)
next
  case (Cons orig rest)
  show ?case
  proof (cases "orig = t")
    case True
    with Cons.IH [of s] show ?thesis by simp
  next
    case False
    show ?thesis
    proof (cases "record_replacement e orig t s")
      case (Inl p)
      obtain err s' where p: "p = (err, s')" by (cases p) auto
      with Inl record_replacement_raises [of e orig t s err s'] False show ?thesis
        by (simp add: final_def)
    next
      case (Inr s')
      with record_replacement_keeps [of e orig t s s'] Cons.IH [of s'] False show ?thesis
        by simp
    qed
  qed
qed

lemma detect_loop_keeps:
  "tx (final (detect_loop e t vins s)) = tx s \<and>
   tx_inputs (final (detect_loop e t vins s)) = tx_inputs s \<and>
   tx_outputs (final (detect_loop e t vins s)) = tx_outputs s \<and>
   rbf_txs (final (detect_loop e t vins s)) = rbf_txs s"
proof (induction vins arbitrary: s)
  case Nil
  then show ?case by (simp add: final_def)
next
  case (Cons vin rest)
  show ?case
  proof (cases "vin_txid vin")
    case None
    then show ?thesis by (simp add: final_def)
  next
    case p: (Some p)
    show ?thesis
    proof (cases "vin_vout vin")
      case None
      with p show ?thesis by (simp add: final_def)
    next
      case v: (Some v)
      show ?thesis
      proof (cases "replace_each e t (select_rbf_spenders p v s) s")
        case (Inl q)
        obtain err s' where q: "q = (err, s')" by (cases q) auto
        with Inl replace_each_keeps [of e t "select_rbf_spenders p v s" s] p v
        show ?thesis by (simp add: final_def)
      next
        case (Inr s')
        with replace_each_keeps [of e t "select_rbf_spenders p v s" s] Cons.IH [of s'] p v
        show ?thesis by (simp add: final_def)
      qed
    qed
  qed
qed

subsection \<open>The transaction table grows\<close>

text \<open>What \<^verbatim>\<open>process_added_nocommit\<close> does once the fetch has returned the JSON.\<close>

lemma process_added_nocommit_fetched:
  assumes "fetch_tx e t = Some j"
  shows "process_added_nocommit e t s =
      (case insert_inputs t (get_or (js_vin j) [])
              (s\<lparr>ticks := ticks s + 1,
                 tx := insert_tx \<lparr>tx_txid = t, fetched_at = isoformat e (utcnow e (ticks s)),
                         tx_fee = get_or (js_fee j) 0, tx_vsize = get_or (js_vsize j) 0\<rparr>
                         (tx s)\<rparr>) False of
         Inl err \<Rightarrow> Inl err
       | Inr (s2, is_rbf) \<Rightarrow>
           (let s3 = insert_outputs t 0 (get_or (js_vout j) []) s2
            in if is_rbf
               then detect_loop e t (get_or (js_vin j) [])
                      (s3\<lparr>rbf_txs := insert_rbf
                            \<lparr>rbf_txid = t, added_at = isoformat e (utcnow e (ticks s))\<rparr>
                            (rbf_txs s3)\<rparr>)
               else Inr s3))"
  using assms by (simp add: process_added_nocommit_def Let_def)

lemma process_added_nocommit_tx:
  assumes fetched: "fetch_tx e t = Some j"
  shows "tx (final (process_added_nocommit e t s)) =
     insert_tx \<lparr>tx_txid = t, fetched_at = isoformat e (utcnow e (ticks s)),
                tx_fee = get_or (js_fee j) 0, tx_vsize = get_or (js_vsize j) 0\<rparr> (tx s)"
proof -
  let ?vins = "get_or (js_vin j) []"
  let ?now = "isoformat e (utcnow e (ticks s))"
  let ?row = "\<lparr>tx_txid = t, fetched_at = ?now, tx_fee = get_or (js_fee j) 0,
               tx_vsize = get_or (js_vsize j) 0\<rparr>"
  let ?s1 = "s\<lparr>ticks := ticks s + 1, tx := insert_tx ?row (tx s)\<rparr>"
  note unfold = process_added_nocommit_fetched [OF fetched, of s]
  show ?thesis
  proof (cases "insert_inputs t ?vins ?s1 False")
    case (Inl p)
    obtain err s' where p: "p = (err, s')" by (cases p) auto
    from insert_inputs_raises [of t ?vins ?s1 False err s'] Inl p
    show ?thesis unfolding unfold by (simp add: final_def)
  next
    case (Inr q)
    obtain s2 b where q: "q = (s2, b)" by (cases q) auto
    let ?s3 = "insert_outputs t 0 (get_or (js_vout j) []) s2"
    have t3: "tx ?s3 = insert_tx ?row (tx s)"
      using insert_inputs_returns [of t ?vins ?s1 False s2 b] Inr q
        insert_outputs_keeps [of t 0 "get_or (js_vout j) []" s2] by simp
    show ?thesis
    proof (cases b)
      case False
      with Inr q t3 show ?thesis unfolding unfold by (simp add: final_def Let_def)
    next
      case True
      with Inr q t3 detect_loop_keeps [of e t ?vins
          "?s3\<lparr>rbf_txs := insert_rbf \<lparr>rbf_txid = t, added_at = ?now\<rparr> (rbf_txs ?s3)\<rparr>"]
      show ?thesis unfolding unfold by (simp add: Let_def)
    qed
  qed
qed

lemma insert_tx_ids: "tx_txid ` set (insert_tx row rows) = insert (tx_txid row) (tx_txid ` set rows)"
proof (cases "tx_conflict row rows")
  case True
  then obtain r where "r \<in> set rows" "tx_txid r = tx_txid row"
    by (auto simp add: tx_conflict_def)
  then have "tx_txid row \<in> tx_txid ` set rows" by (metis imageI)
  with True show ?thesis by (simp add: insert_tx_def insert_absorb)
next
  case False
  then show ?thesis by (simp add: insert_tx_def)
qed

lemma process_added_nocommit_ids:
  assumes "process_added_nocommit e t s = Inr s'"
  shows "tx_txid ` set (tx s') =
     (if fetch_tx e t = None then tx_txid ` set (tx s) else insert t (tx_txid ` set (tx s)))"
proof (cases "fetch_tx e t")
  case None
  with assms show ?thesis by (simp add: process_added_nocommit_def)
next
  case (Some j)
  from process_added_nocommit_tx [OF Some, of s] assms Some show ?thesis
    by (simp add: final_def insert_tx_ids)
qed

lemma process_all_ids:
  "process_all e ts s = Inr s' \<Longrightarrow>
   tx_txid ` set (tx s') = tx_txid ` set (tx s) \<union> {t \<in> set ts. fetch_tx e t \<noteq> None}"
proof (induction ts arbitrary: s)
  case Nil
  then show ?case by simp
next
  case (Cons t rest)
  from Cons.prems obtain s1 where one: "process_added_nocommit e t s = Inr s1"
    and more: "process_all e rest s1 = Inr s'"
    by (auto split: sum.splits)
  from Cons.IH [OF more] process_added_nocommit_ids [OF one] show ?case by auto
qed

subsection \<open>Replaceable transactions\<close>

lemma insert_inputs_well_formed:
  "well_formed vins \<Longrightarrow>
   insert_inputs t vins s b =
     Inr (s\<lparr>tx_inputs := tx_inputs s @ map (stored_input t) vins\<rparr>, b \<or> low_sequence vins)"
proof (induction t vins s b rule: insert_inputs.induct)
  case (1 t s is_rbf)
  then show ?case by (simp add: low_sequence_def)
next
  case (2 t vin rest s is_rbf)
  from "2.prems" obtain p v where p: "vin_txid vin = Some p" and v: "vin_vout vin = Some v"
    by (auto simp add: well_formed_def)
  from "2.prems" have "well_formed rest" by (simp add: well_formed_def)
  from "2.IH" [OF refl refl p v this] p v show ?case
    by (auto simp add: Let_def low_sequence_def stored_input_def get_or_def)
qed

lemma insert_inputs_flag:
  "insert_inputs t vins s b = Inr (s', b') \<Longrightarrow> b' = (b \<or> low_sequence vins)"
  using insert_inputs_returns [of t vins s b s' b']
  by (simp add: low_sequence_def list_ex_iff)

text \<open>
  C5. A fetched transaction is made a candidate exactly when one of its inputs has a
  sequence below \<open>0xFFFFFFFE\<close>. When no input has one (so when every input has
  \<open>0xFFFFFFFF\<close>), whatever outpoints it spends, the call leaves \<open>rbf_txs\<close>,
  \<open>replacements\<close> and \<open>change_inputs\<close> as they were. When an input has one, and every
  input object has its \<^verbatim>\<open>txid\<close> and \<^verbatim>\<open>vout\<close> as the API gives them, the call
  does the INSERT OR IGNORE of the candidate row, so the txid is in \<open>rbf_txs\<close> after it.
\<close>

theorem rbf_candidate_iff_low_sequence:
  assumes fetched: "fetch_tx e t = Some j"
  shows "(\<not> low_sequence (get_or (js_vin j) []) \<longrightarrow>
            rbf_txs (final (process_added_nocommit e t s)) = rbf_txs s \<and>
            replacements (final (process_added_nocommit e t s)) = replacements s \<and>
            change_inputs (final (process_added_nocommit e t s)) = change_inputs s) \<and>
         (list_all (\<lambda>vin. vin_sequence vin = Some 0xFFFFFFFF) (get_or (js_vin j) []) \<longrightarrow>
            \<not> low_sequence (get_or (js_vin j) [])) \<and>
         (low_sequence (get_or (js_vin j) []) \<and> well_formed (get_or (js_vin j) []) \<longrightarrow>
            rbf_txs (final (process_added_nocommit e t s)) =
              insert_rbf \<lparr>rbf_txid = t, added_at = isoformat e (utcnow e (ticks s))\<rparr>
                (rbf_txs s) \<and>
            t \<in> rbf_txid ` set (rbf_txs (final (process_added_nocommit e t s))))"
proof -
  let ?vins = "get_or (js_vin j) []"
  let ?now = "isoformat e (utcnow e (ticks s))"
  let ?s1 = "s\<lparr>ticks := ticks s + 1,
       tx := insert_tx \<lparr>tx_txid = t, fetched_at = ?now, tx_fee = get_or (js_fee j) 0,
                        tx_vsize = get_or (js_vsize j) 0\<rparr> (tx s)\<rparr>"
  note unfold = process_added_nocommit_fetched [OF fetched, of s]
  have none: "\<not> low_sequence ?vins \<longrightarrow>
            rbf_txs (final (process_added_nocommit e t s)) = rbf_txs s \<and>
            replacements (final (process_added_nocommit e t s)) = replacements s \<and>
            change_inputs (final (process_added_nocommit e t s)) = change_inputs s"
  proof
    assume no: "\<not> low_sequence ?vins"
    show "rbf_txs (final (process_added_nocommit e t s)) = rbf_txs s \<and>
            replacements (final (process_added_nocommit e t s)) = replacements s \<and>
            change_inputs (final (process_added_nocommit e t s)) = change_inputs s"
    proof (cases "insert_inputs t ?vins ?s1 False")
      case (Inl p)
      obtain err s' where p: "p = (err, s')" by (cases p) auto
      from insert_inputs_raises [of t ?vins ?s1 False err s'] Inl p
      show ?thesis unfolding unfold by (simp add: final_def)
    next
      case (Inr q)
      obtain s2 b where q: "q = (s2, b)" by (cases q) auto
      from insert_inputs_flag [of t ?vins ?s1 False s2 b] Inr q no have "\<not> b" by simp
      with insert_inputs_returns [of t ?vins ?s1 False s2 b] Inr q
        insert_outputs_keeps [of t 0 "get_or (js_vout j) []" s2]
      show ?thesis unfolding unfold by (simp add: final_def Let_def)
    qed
  qed
  have finals: "list_all (\<lambda>vin. vin_sequence vin = Some 0xFFFFFFFF) ?vins \<longrightarrow>
      \<not> low_sequence ?vins"
    by (auto simp add: low_sequence_def list_all_iff list_ex_iff get_or_def
        RBF_SEQ_THRESHOLD_def)
  have some: "low_sequence ?vins \<and> well_formed ?vins \<longrightarrow>
            rbf_txs (final (process_added_nocommit e t s)) =
              insert_rbf \<lparr>rbf_txid = t, added_at = ?now\<rparr> (rbf_txs s) \<and>
            t \<in> rbf_txid ` set (rbf_txs (final (process_added_nocommit e t s)))"
  proof
    assume h: "low_sequence ?vins \<and> well_formed ?vins"
    let ?s2 = "?s1\<lparr>tx_inputs := tx_inputs ?s1 @ map (stored_input t) ?vins\<rparr>"
    let ?s3 = "insert_outputs t 0 (get_or (js_vout j) []) ?s2"
    from h insert_inputs_well_formed [of ?vins t ?s1 False]
    have ins: "insert_inputs t ?vins ?s1 False = Inr (?s2, True)" by simp
    have r3: "rbf_txs ?s3 = rbf_txs s"
      using insert_outputs_keeps [of t 0 "get_or (js_vout j) []" ?s2] by simp
    have "process_added_nocommit e t s = detect_loop e t ?vins
        (?s3\<lparr>rbf_txs := insert_rbf \<lparr>rbf_txid = t, added_at = ?now\<rparr> (rbf_txs ?s3)\<rparr>)"
      unfolding unfold ins by (simp add: Let_def)
    with detect_loop_keeps [of e t ?vins
        "?s3\<lparr>rbf_txs := insert_rbf \<lparr>rbf_txid = t, added_at = ?now\<rparr> (rbf_txs ?s3)\<rparr>"] r3
    have eq: "rbf_txs (final (process_added_nocommit e t s)) =
        insert_rbf \<lparr>rbf_txid = t, added_at = ?now\<rparr> (rbf_txs s)"
      by simp
    moreover have "t \<in> rbf_txid ` set (insert_rbf \<lparr>rbf_txid = t, added_at = ?now\<rparr> (rbf_txs s))"
      by (auto simp add: insert_rbf_def rbf_conflict_def)
    ultimately show "rbf_txs (final (process_added_nocommit e t s)) =
              insert_rbf \<lparr>rbf_txid = t, added_at = ?now\<rparr> (rbf_txs s) \<and>
            t \<in> rbf_txid ` set (rbf_txs (final (process_added_nocommit e t s)))"
      by simp
  qed
  from none finals some show ?thesis by blast
qed

lemma fetch_demo:
  "fetch_tx demo_env ''O'' = Some tx_O" "fetch_tx demo_env ''N'' = Some tx_N"
  "fetch_tx demo_env ''F'' = Some tx_F" "fetch_tx demo_env ''S'' = Some tx_S"
  by (simp_all add: fetch_tx_def demo_env_def)

lemma after_O_spenders: "select_rbf_spenders ''P'' 0 after_O = [''O'']"
  unfolding after_O_def by code_simp

theorem rbf_candidate_iff_low_sequence_witness:
  "list_all (\<lambda>vin. vin_sequence vin = Some 0xFFFFFFFF) (get_or (js_vin tx_F) []) \<and>
   select_rbf_spenders ''P'' 0 after_O = [''O''] \<and>
   rbf_txs (final (process_added_nocommit demo_env ''F'' after_O)) = rbf_txs after_O \<and>
   replacements (final (process_added_nocommit demo_env ''F'' after_O)) = replacements after_O \<and>
   change_inputs (final (process_added_nocommit demo_env ''F'' after_O)) = change_inputs after_O \<and>
   low_sequence (get_or (js_vin tx_N) []) \<and> well_formed (get_or (js_vin tx_N) []) \<and>
   ''N'' \<in> rbf_txid ` set (rbf_txs (final (process_added_nocommit demo_env ''N'' after_O)))"
proof -
  have finals: "list_all (\<lambda>vin. vin_sequence vin = Some 0xFFFFFFFF) (get_or (js_vin tx_F) [])"
    by (simp add: tx_F_def get_or_def vin_P0_def vin_P1_def)
  have low: "low_sequence (get_or (js_vin tx_N) [])"
    by (simp add: tx_N_def get_or_def vin_P0_def vin_P1_def low_sequence_def
        RBF_SEQ_THRESHOLD_def)
  have wf: "well_formed (get_or (js_vin tx_N) [])"
    by (simp add: tx_N_def get_or_def vin_P0_def vin_P1_def well_formed_def)
  from rbf_candidate_iff_low_sequence [OF fetch_demo(3), of after_O] finals
  have "rbf_txs (final (process_added_nocommit demo_env ''F'' after_O)) = rbf_txs after_O \<and>
   replacements (final (process_added_nocommit demo_env ''F'' after_O)) = replacements after_O \<and>
   change_inputs (final (process_added_nocommit demo_env ''F'' after_O)) = change_inputs after_O"
    by blast
  moreover from rbf_candidate_iff_low_sequence [OF fetch_demo(2), of after_O] low wf
  have "''N'' \<in> rbf_txid ` set (rbf_txs (final (process_added_nocommit demo_env ''N'' after_O)))"
    by blast
  ultimately show ?thesis using finals low wf after_O_spenders by blast
qed

text \<open>
  C10. A JSON without \<^verbatim>\<open>fee\<close> or \<^verbatim>\<open>vsize\<close> is written to \<open>tx\<close> with 0 in that
  column (the insert is an INSERT OR IGNORE: a txid that is stored already keeps its
  row). An input object without \<^verbatim>\<open>sequence\<close> counts as sequence 0, which is below
  the threshold: when every input object has its \<^verbatim>\<open>txid\<close> and \<^verbatim>\<open>vout\<close>, the
  input is stored with sequence 0 and the transaction is made a candidate, whatever
  the other sequences are.
\<close>

theorem missing_fields_default_to_zero:
  assumes fetched: "fetch_tx e t = Some j"
  shows "tx (final (process_added_nocommit e t s)) =
           insert_tx \<lparr>tx_txid = t, fetched_at = isoformat e (utcnow e (ticks s)),
                      tx_fee = (if js_fee j = None then 0 else get_or (js_fee j) 0),
                      tx_vsize = (if js_vsize j = None then 0 else get_or (js_vsize j) 0)\<rparr>
             (tx s) \<and>
         (js_fee j = None \<and> js_vsize j = None \<and> \<not> list_ex (\<lambda>r. tx_txid r = t) (tx s) \<longrightarrow>
            tx (final (process_added_nocommit e t s)) =
              tx s @ [\<lparr>tx_txid = t, fetched_at = isoformat e (utcnow e (ticks s)),
                       tx_fee = 0, tx_vsize = 0\<rparr>]) \<and>
         (list_ex (\<lambda>vin. vin_sequence vin = None) (get_or (js_vin j) []) \<longrightarrow>
            low_sequence (get_or (js_vin j) [])) \<and>
         (list_ex (\<lambda>vin. vin_sequence vin = None) (get_or (js_vin j) []) \<and>
          well_formed (get_or (js_vin j) []) \<longrightarrow>
            tx_inputs (final (process_added_nocommit e t s)) =
              tx_inputs s @ map (stored_input t) (get_or (js_vin j) []) \<and>
            list_ex (\<lambda>r. ti_txid r = t \<and> ti_sequence r = 0)
              (tx_inputs (final (process_added_nocommit e t s))) \<and>
            t \<in> rbf_txid ` set (rbf_txs (final (process_added_nocommit e t s))))"
proof -
  let ?vins = "get_or (js_vin j) []"
  let ?now = "isoformat e (utcnow e (ticks s))"
  let ?row = "\<lparr>tx_txid = t, fetched_at = ?now, tx_fee = get_or (js_fee j) 0,
               tx_vsize = get_or (js_vsize j) 0\<rparr>"
  let ?s1 = "s\<lparr>ticks := ticks s + 1, tx := insert_tx ?row (tx s)\<rparr>"
  note unfold = process_added_nocommit_fetched [OF fetched, of s]
  have txs: "tx (final (process_added_nocommit e t s)) = insert_tx ?row (tx s)"
    by (rule process_added_nocommit_tx [OF fetched])
  have row: "?row = \<lparr>tx_txid = t, fetched_at = ?now,
      tx_fee = (if js_fee j = None then 0 else get_or (js_fee j) 0),
      tx_vsize = (if js_vsize j = None then 0 else get_or (js_vsize j) 0)\<rparr>"
    by (simp add: get_or_def)
  have first: "tx (final (process_added_nocommit e t s)) =
      insert_tx \<lparr>tx_txid = t, fetched_at = ?now,
        tx_fee = (if js_fee j = None then 0 else get_or (js_fee j) 0),
        tx_vsize = (if js_vsize j = None then 0 else get_or (js_vsize j) 0)\<rparr> (tx s)"
    using txs row by simp
  have fresh: "js_fee j = None \<and> js_vsize j = None \<and> \<not> list_ex (\<lambda>r. tx_txid r = t) (tx s) \<longrightarrow>
      tx (final (process_added_nocommit e t s)) =
        tx s @ [\<lparr>tx_txid = t, fetched_at = ?now, tx_fee = 0, tx_vsize = 0\<rparr>]"
    unfolding txs by (auto simp add: insert_tx_def tx_conflict_def get_or_def list_ex_iff)
  have low: "list_ex (\<lambda>vin. vin_sequence vin = None) ?vins \<longrightarrow> low_sequence ?vins"
    by (auto simp add: low_sequence_def list_ex_iff get_or_def RBF_SEQ_THRESHOLD_def)
  have cand: "list_ex (\<lambda>vin. vin_sequence vin = None) ?vins \<and> well_formed ?vins \<longrightarrow>
      tx_inputs (final (process_added_nocommit e t s)) =
        tx_inputs s @ map (stored_input t) ?vins \<and>
      list_ex (\<lambda>r. ti_txid r = t \<and> ti_sequence r = 0)
        (tx_inputs (final (process_added_nocommit e t s))) \<and>
      t \<in> rbf_txid ` set (rbf_txs (final (process_added_nocommit e t s)))"
  proof
    assume h: "list_ex (\<lambda>vin. vin_sequence vin = None) ?vins \<and> well_formed ?vins"
    with low have l: "low_sequence ?vins" by blast
    let ?s2 = "?s1\<lparr>tx_inputs := tx_inputs ?s1 @ map (stored_input t) ?vins\<rparr>"
    let ?s3 = "insert_outputs t 0 (get_or (js_vout j) []) ?s2"
    let ?s4 = "?s3\<lparr>rbf_txs := insert_rbf \<lparr>rbf_txid = t, added_at = ?now\<rparr> (rbf_txs ?s3)\<rparr>"
    from h l insert_inputs_well_formed [of ?vins t ?s1 False]
    have ins: "insert_inputs t ?vins ?s1 False = Inr (?s2, True)" by simp
    have k3: "tx_inputs ?s3 = tx_inputs s @ map (stored_input t) ?vins"
      using insert_outputs_keeps [of t 0 "get_or (js_vout j) []" ?s2] by simp
    have run: "process_added_nocommit e t s = detect_loop e t ?vins ?s4"
      unfolding unfold ins by (simp add: Let_def)
    from run detect_loop_keeps [of e t ?vins ?s4] k3
    have inputs: "tx_inputs (final (process_added_nocommit e t s)) =
        tx_inputs s @ map (stored_input t) ?vins"
      by simp
    from h obtain vin where vin: "vin \<in> set ?vins" "vin_sequence vin = None"
      by (auto simp add: list_ex_iff)
    then have "stored_input t vin \<in> set (map (stored_input t) ?vins)" by simp
    moreover have "ti_txid (stored_input t vin) = t \<and> ti_sequence (stored_input t vin) = 0"
      using vin(2) by (simp add: stored_input_def get_or_def)
    ultimately have zero: "list_ex (\<lambda>r. ti_txid r = t \<and> ti_sequence r = 0)
        (tx_inputs (final (process_added_nocommit e t s)))"
      unfolding inputs list_ex_iff by auto
    from run detect_loop_keeps [of e t ?vins ?s4]
    have "rbf_txs (final (process_added_nocommit e t s)) = rbf_txs ?s4" by simp
    moreover have "t \<in> rbf_txid ` set (rbf_txs ?s4)"
      by (auto simp add: insert_rbf_def rbf_conflict_def)
    ultimately have "t \<in> rbf_txid ` set (rbf_txs (final (process_added_nocommit e t s)))"
      by simp
    with inputs zero show "tx_inputs (final (process_added_nocommit e t s)) =
        tx_inputs s @ map (stored_input t) ?vins \<and>
      list_ex (\<lambda>r. ti_txid r = t \<and> ti_sequence r = 0)
        (tx_inputs (final (process_added_nocommit e t s))) \<and>
      t \<in> rbf_txid ` set (rbf_txs (final (process_added_nocommit e t s)))"
      by blast
  qed
  from first fresh low cand show ?thesis by blast
qed

theorem missing_fields_default_to_zero_witness:
  "js_fee tx_S = None \<and> js_vsize tx_S = None \<and>
   list_ex (\<lambda>vin. vin_sequence vin = None) (get_or (js_vin tx_S) []) \<and>
   well_formed (get_or (js_vin tx_S) []) \<and>
   tx (final (process_added_nocommit demo_env ''S'' empty_state)) =
     [\<lparr>tx_txid = ''S'', fetched_at = ''1970-01-15T00:00:00'', tx_fee = 0, tx_vsize = 0\<rparr>] \<and>
   map ti_sequence (tx_inputs (final (process_added_nocommit demo_env ''S'' empty_state))) =
     [0, 0xFFFFFFFF] \<and>
   ''S'' \<in> rbf_txid ` set (rbf_txs (final (process_added_nocommit demo_env ''S'' empty_state)))"
proof -
  have absent: "js_fee tx_S = None \<and> js_vsize tx_S = None"
    by (simp add: tx_S_def)
  have noseq: "list_ex (\<lambda>vin. vin_sequence vin = None) (get_or (js_vin tx_S) [])"
    by (simp add: tx_S_def get_or_def)
  have wf: "well_formed (get_or (js_vin tx_S) [])"
    by (simp add: tx_S_def get_or_def well_formed_def)
  have fresh: "\<not> list_ex (\<lambda>r. tx_txid r = ''S'') (tx empty_state)"
    by (simp add: empty_state_def)
  note inst = missing_fields_default_to_zero [OF fetch_demo(4), of empty_state]
  from inst absent fresh
  have "tx (final (process_added_nocommit demo_env ''S'' empty_state)) =
      tx empty_state @ [\<lparr>tx_txid = ''S'',
        fetched_at = isoformat demo_env (utcnow demo_env (ticks empty_state)),
        tx_fee = 0, tx_vsize = 0\<rparr>]"
    by blast
  then have row: "tx (final (process_added_nocommit demo_env ''S'' empty_state)) =
     [\<lparr>tx_txid = ''S'', fetched_at = ''1970-01-15T00:00:00'', tx_fee = 0, tx_vsize = 0\<rparr>]"
    by (simp add: empty_state_def demo_env_def demo_iso_def)
  from inst noseq wf
  have "tx_inputs (final (process_added_nocommit demo_env ''S'' empty_state)) =
      tx_inputs empty_state @ map (stored_input ''S'') (get_or (js_vin tx_S) [])"
    and cand: "''S'' \<in> rbf_txid ` set (rbf_txs (final (process_added_nocommit demo_env ''S'' empty_state)))"
    by blast+
  then have seqs: "map ti_sequence
      (tx_inputs (final (process_added_nocommit demo_env ''S'' empty_state))) = [0, 0xFFFFFFFF]"
    by (simp add: empty_state_def tx_S_def get_or_def stored_input_def)
  from absent noseq wf row seqs cand show ?thesis by blast
qed

subsection \<open>Ingestion of well-formed JSON never raises\<close>

lemma dict_put_set: "set (dict_put d k v) \<subseteq> insert (k, v) (set d)"
  by (induction d k v rule: dict_put.induct) auto

lemma foldl_dict_put_set:
  "set (foldl (\<lambda>d (i, a, v). dict_put d i (a, v)) d rows) \<subseteq>
   set d \<union> (\<lambda>(i, a, v). (i, (a, v))) ` set rows"
proof (induction rows arbitrary: d)
  case Nil
  then show ?case by simp
next
  case (Cons r rows)
  obtain i a v where r: "r = (i, a, v)" by (cases r) auto
  from Cons.IH [of "dict_put d i (a, v)"] dict_put_set [of d i "(a, v)"] r
  show ?case by auto
qed

lemma by_idx_set: "(i, (a, v)) \<in> set (by_idx rows) \<Longrightarrow> (i, a, v) \<in> set rows"
  using foldl_dict_put_set [of "[]" rows] by (auto simp add: by_idx_def)

lemma valued_dict:
  assumes "valued s" and "(i, (a, v)) \<in> set (by_idx (select_outputs t s))"
  shows "v \<noteq> None"
proof -
  from assms(2) have "(i, a, v) \<in> set (select_outputs t s)" by (rule by_idx_set)
  with assms(1) show ?thesis
    by (auto simp add: select_outputs_def valued_def list_all_iff)
qed

lemma diff_loop_returns:
  "\<forall>k \<in> indices es. dict_get nb k \<noteq> None \<Longrightarrow>
   diff_loop es nb acc = Inr None \<or> diff_loop es nb acc = Inr (Some (acc @ diffs_of es nb))"
proof (induction es nb acc rule: diff_loop.induct)
  case (1 nb diffs)
  then show ?case by simp
next
  case (2 idx orig_addr orig_val rest nb diffs)
  from "2.prems" obtain na nv where g: "dict_get nb idx = Some (na, nv)"
    by (fastforce simp add: indices_def)
  from "2.prems" have pres: "\<forall>k \<in> indices rest. dict_get nb k \<noteq> None"
    by (simp add: indices_def)
  show ?case
  proof (cases "orig_addr = na")
    case False
    with g show ?thesis by simp
  next
    case True
    show ?thesis
    proof (cases "orig_val = nv")
      case same: True
      from "2.IH"(2) [OF g refl _ _ pres] True same g show ?thesis by simp
    next
      case differ: False
      from "2.IH"(1) [OF g refl _ _ pres] True differ g show ?thesis by simp
    qed
  qed
qed

lemma record_replacement_valued:
  assumes "valued s"
  shows "\<exists>s'. record_replacement e orig new s = Inr s'"
proof -
  let ?ob = "by_idx (select_outputs orig s)" and ?nb = "by_idx (select_outputs new s)"
  show ?thesis
  proof (cases "set (map fst ?ob) = set (map fst ?nb)")
    case False
    then show ?thesis by (simp add: record_replacement_def Let_def)
  next
    case keys: True
    then have "\<forall>k \<in> indices ?ob. dict_get ?nb k \<noteq> None"
      by (simp add: dict_get_None indices_def)
    from diff_loop_returns [OF this, of "[]"]
    have "diff_loop ?ob ?nb [] = Inr None \<or> diff_loop ?ob ?nb [] = Inr (Some (diffs_of ?ob ?nb))"
      by simp
    then show ?thesis
    proof
      assume "diff_loop ?ob ?nb [] = Inr None"
      with keys show ?thesis by (simp add: record_replacement_def Let_def)
    next
      assume loop: "diff_loop ?ob ?nb [] = Inr (Some (diffs_of ?ob ?nb))"
      show ?thesis
      proof (cases "length (diffs_of ?ob ?nb) = 1")
        case False
        with keys loop show ?thesis by (simp add: record_replacement_def Let_def)
      next
        case True
        then obtain d where d: "diffs_of ?ob ?nb = [d]"
          by (cases "diffs_of ?ob ?nb") auto
        then have "d \<in> set (diffs_of ?ob ?nb)" by simp
        then obtain i a v a' v' where di: "d = (i, a, v, v')"
          and mo: "(i, (a, v)) \<in> set ?ob" and gn: "dict_get ?nb i = Some (a', v')"
          unfolding diffs_of_mem by blast
        from gn have mn: "(i, (a', v')) \<in> set ?nb"
          by (simp add: dict_get_def map_of_SomeD)
        from valued_dict [OF assms mo] obtain ov where ov: "v = Some ov" by auto
        from valued_dict [OF assms mn] obtain nv where nv: "v' = Some nv" by auto
        from keys loop d di ov nv show ?thesis
          by (simp add: record_replacement_def Let_def)
      qed
    qed
  qed
qed

lemma replace_each_valued:
  "valued s \<Longrightarrow> \<exists>s'. replace_each e t origs s = Inr s' \<and> tx_outputs s' = tx_outputs s"
proof (induction origs arbitrary: s)
  case Nil
  then show ?case by simp
next
  case (Cons orig rest)
  show ?case
  proof (cases "orig = t")
    case True
    with Cons.IH [OF Cons.prems] show ?thesis by simp
  next
    case False
    from record_replacement_valued [OF Cons.prems, of e orig t]
    obtain s1 where one: "record_replacement e orig t s = Inr s1" by blast
    from record_replacement_keeps [OF one] have same: "tx_outputs s1 = tx_outputs s" by simp
    with Cons.prems have "valued s1" by (simp add: valued_def)
    from Cons.IH [OF this] one same False show ?thesis by auto
  qed
qed

lemma detect_loop_valued:
  "valued s \<Longrightarrow> well_formed vins \<Longrightarrow>
   \<exists>s'. detect_loop e t vins s = Inr s' \<and> tx_outputs s' = tx_outputs s"
proof (induction vins arbitrary: s)
  case Nil
  then show ?case by simp
next
  case (Cons vin rest)
  from Cons.prems(2) obtain p v where p: "vin_txid vin = Some p" and v: "vin_vout vin = Some v"
    by (auto simp add: well_formed_def)
  from Cons.prems(2) have wf: "well_formed rest" by (simp add: well_formed_def)
  from replace_each_valued [OF Cons.prems(1), of e t "select_rbf_spenders p v s"]
  obtain s1 where one: "replace_each e t (select_rbf_spenders p v s) s = Inr s1"
    and same: "tx_outputs s1 = tx_outputs s" by blast
  from same Cons.prems(1) have "valued s1" by (simp add: valued_def)
  from Cons.IH [OF this wf] one same p v show ?case by auto
qed

lemma insert_outputs_valued:
  "valued s \<Longrightarrow> list_all (\<lambda>vout. vout_value vout \<noteq> None) vouts \<Longrightarrow>
   valued (insert_outputs t idx vouts s)"
  by (induction t idx vouts s rule: insert_outputs.induct) (simp_all add: valued_def)

lemma process_added_nocommit_conforming:
  assumes val: "valued s" and conf: "\<forall>j. fetch_tx e t = Some j \<longrightarrow> conforming j"
  shows "\<exists>s'. process_added_nocommit e t s = Inr s' \<and> valued s'"
proof (cases "fetch_tx e t")
  case None
  with val show ?thesis by (simp add: process_added_nocommit_def)
next
  case (Some j)
  let ?vins = "get_or (js_vin j) []"
  let ?now = "isoformat e (utcnow e (ticks s))"
  let ?s1 = "s\<lparr>ticks := ticks s + 1,
       tx := insert_tx \<lparr>tx_txid = t, fetched_at = ?now, tx_fee = get_or (js_fee j) 0,
                        tx_vsize = get_or (js_vsize j) 0\<rparr> (tx s)\<rparr>"
  let ?s2 = "?s1\<lparr>tx_inputs := tx_inputs ?s1 @ map (stored_input t) ?vins\<rparr>"
  let ?s3 = "insert_outputs t 0 (get_or (js_vout j) []) ?s2"
  let ?s4 = "?s3\<lparr>rbf_txs := insert_rbf \<lparr>rbf_txid = t, added_at = ?now\<rparr> (rbf_txs ?s3)\<rparr>"
  from conf Some have wf: "well_formed ?vins"
    and outs: "list_all (\<lambda>vout. vout_value vout \<noteq> None) (get_or (js_vout j) [])"
    by (simp_all add: conforming_def)
  from insert_inputs_well_formed [OF wf, of t ?s1 False]
  have ins: "insert_inputs t ?vins ?s1 False = Inr (?s2, low_sequence ?vins)" by simp
  from val have "valued ?s2" by (simp add: valued_def)
  from insert_outputs_valued [OF this outs] have v3: "valued ?s3" .
  then have v4: "valued ?s4" by (simp add: valued_def)
  show ?thesis
  proof (cases "low_sequence ?vins")
    case False
    with ins v3 show ?thesis
      unfolding process_added_nocommit_fetched [OF Some] by (simp add: Let_def)
  next
    case True
    from detect_loop_valued [OF v4 wf, of e t] obtain s' where
      "detect_loop e t ?vins ?s4 = Inr s'" and "tx_outputs s' = tx_outputs ?s4" by blast
    with True ins v4 show ?thesis
      unfolding process_added_nocommit_fetched [OF Some] by (simp add: Let_def valued_def)
  qed
qed

lemma process_all_conforming:
  "valued s \<Longrightarrow> \<forall>t \<in> set ts. \<forall>j. fetch_tx e t = Some j \<longrightarrow> conforming j \<Longrightarrow>
   \<exists>s'. process_all e ts s = Inr s' \<and> valued s'"
proof (induction ts arbitrary: s)
  case Nil
  then show ?case by simp
next
  case (Cons t rest)
  from Cons.prems(2) have "\<forall>j. fetch_tx e t = Some j \<longrightarrow> conforming j" by simp
  from process_added_nocommit_conforming [OF Cons.prems(1) this]
  obtain s1 where one: "process_added_nocommit e t s = Inr s1" and v1: "valued s1" by blast
  from Cons.prems(2) have "\<forall>t \<in> set rest. \<forall>j. fetch_tx e t = Some j \<longrightarrow> conforming j" by simp
  from Cons.IH [OF v1 this] one show ?case by simp
qed

subsection \<open>Shutdown\<close>

lemma run_loop_append:
  "run_loop e evs w = Waiting w1 \<Longrightarrow> run_loop e (evs @ rest) w = run_loop e rest w1"
proof (induction e evs w rule: run_loop.induct)
  case (1 e w)
  then show ?case by simp
next
  case (2 e t q w)
  let ?w1 = "w\<lparr>buffer := buffer w @ [t]\<rparr>"
  show ?case
  proof (cases "length (buffer ?w1) \<ge> batch_size ?w1")
    case False
    with "2.prems" "2.IH"(2) [OF refl False] show ?thesis by (simp add: Let_def)
  next
    case True
    show ?thesis
    proof (cases "flush_batch e ?w1")
      case (Inl p)
      with "2.prems" True show ?thesis by (auto simp add: Let_def split: prod.splits)
    next
      case (Inr w2)
      with "2.prems" True "2.IH"(1) [OF refl True Inr] show ?thesis by (simp add: Let_def)
    qed
  qed
next
  case (3 e q w)
  then show ?case by simp
next
  case (4 e q w)
  then show ?case by simp
next
  case (5 e q w)
  then show ?case by simp
qed

text \<open>
  The shutdown when nothing raises. The worker has read the events \<open>evs\<close> and holds
  the buffer of \<open>w1\<close>; the next event is \<open>stop\<close>. When no buffered transaction raises
  while it is processed, the thread returns from \<^verbatim>\<open>run\<close>: every buffered txid has
  been processed, in order; the resulting state is committed; the buffer is empty and
  the handle closed; events behind the \<open>stop\<close> are not read. Every buffered txid whose
  fetch succeeded has its row in the committed \<open>tx\<close> table. (By
  \<open>process_all_conforming\<close> nothing raises when the JSON of the buffered transactions
  is as the API documents it.)
\<close>

lemma stop_after_clean_flush:
  assumes consumed: "run_loop e evs w = Waiting w1"
    and clean: "process_all e (buffer w1) (live (wconn w1)) = Inr s'"
  shows "run e (evs @ Stop # q) w =
           Exited (w1\<lparr>buffer := [],
                      wconn := \<lparr>live = s', committed = s', closed = True\<rparr>\<rparr>) \<and>
         (\<forall>t \<in> set (buffer w1). fetch_tx e t \<noteq> None \<longrightarrow> t \<in> tx_txid ` set (tx s'))"
proof -
  have loop: "run_loop e (evs @ Stop # q) w = Break w1"
    using run_loop_append [OF consumed, of "Stop # q"] by simp
  have fin: "finally_block e w1 =
      Inr (w1\<lparr>buffer := [], wconn := \<lparr>live = s', committed = s', closed = True\<rparr>\<rparr>)"
  proof (cases "buffer w1 = []")
    case True
    with clean have "s' = live (wconn w1)" by simp
    with True show ?thesis
      by (simp add: finally_block_def commit_def close_conn_def)
  next
    case False
    with clean show ?thesis
      by (simp add: finally_block_def flush_batch_def commit_def close_conn_def)
  qed
  have exited: "run e (evs @ Stop # q) w =
      Exited (w1\<lparr>buffer := [], wconn := \<lparr>live = s', committed = s', closed = True\<rparr>\<rparr>)"
    by (simp add: run_def loop fin)
  from process_all_ids [OF clean]
  have "\<forall>t \<in> set (buffer w1). fetch_tx e t \<noteq> None \<longrightarrow> t \<in> tx_txid ` set (tx s')"
    by auto
  with exited show ?thesis by blast
qed

lemma two_stored_clean: "process_all demo_env [''O'', ''N''] empty_state = Inr two_stored"
proof -
  have "\<not> isl (process_all demo_env [''O'', ''N''] empty_state)" by code_simp
  then show ?thesis unfolding two_stored_def
    by (cases "process_all demo_env [''O'', ''N''] empty_state") (simp_all add: final_def)
qed

lemma two_stored_ids: "map tx_txid (tx two_stored) = [''O'', ''N'']"
  unfolding two_stored_def by code_simp

lemma stop_after_clean_flush_example:
  "run_loop demo_env [Added ''O'', Added ''N''] main_worker =
     Waiting (main_worker\<lparr>buffer := [''O'', ''N'']\<rparr>) \<and>
   run demo_env ([Added ''O'', Added ''N''] @ Stop # [Added ''good'']) main_worker =
     Exited (main_worker\<lparr>buffer := [],
               wconn := \<lparr>live = two_stored, committed = two_stored, closed = True\<rparr>\<rparr>) \<and>
   map tx_txid (tx two_stored) = [''O'', ''N'']"
proof -
  have consumed: "run_loop demo_env [Added ''O'', Added ''N''] main_worker =
      Waiting (main_worker\<lparr>buffer := [''O'', ''N'']\<rparr>)"
    by (simp add: main_worker_def Let_def)
  have clean: "process_all demo_env (buffer (main_worker\<lparr>buffer := [''O'', ''N'']\<rparr>))
      (live (wconn (main_worker\<lparr>buffer := [''O'', ''N'']\<rparr>))) = Inr two_stored"
    using two_stored_clean by (simp add: main_worker_def empty_conn_def)
  from stop_after_clean_flush [OF consumed clean, of "[Added ''good'']"]
  have "run demo_env ([Added ''O'', Added ''N''] @ Stop # [Added ''good'']) main_worker =
     Exited (main_worker\<lparr>buffer := [],
               wconn := \<lparr>live = two_stored, committed = two_stored, closed = True\<rparr>\<rparr>)"
    by simp
  with consumed two_stored_ids show ?thesis by blast
qed

text \<open>
  C9. The specification: on \<open>stop\<close> the worker flushes every buffered txid, commits,
  closes the handle and terminates, so that no buffered work is dropped. In the code
  the flush of the \<^verbatim>\<open>finally\<close> block has no \<^verbatim>\<open>try\<close> around
  \<^verbatim>\<open>process_added_nocommit\<close>: with \<open>good\<close> and \<open>bad\<close> buffered when the
  \<open>stop\<close> arrives, \<open>good\<close> is written, the KeyError of \<open>bad\<close> leaves
  \<^verbatim>\<open>_flush_batch\<close> and the \<^verbatim>\<open>finally\<close> block, and
  \<^verbatim>\<open>conn.commit()\<close> and \<^verbatim>\<open>conn.close()\<close> are not reached. The thread
  dies with the buffer still full, the rows of \<open>good\<close> uncommitted and the handle
  open.
\<close>

theorem stop_with_malformed_tx_drops_buffer:
  "run demo_env [Added ''good'', Added ''bad'', Stop] main_worker =
     Died (KeyError ''txid'')
       \<lparr>buffer = [''good'', ''bad''],
        wconn = \<lparr>live = empty_state
                    \<lparr>tx := [\<lparr>tx_txid = ''good'', fetched_at = ''1970-01-15T00:00:00'',
                              tx_fee = 300, tx_vsize = 90\<rparr>,
                            \<lparr>tx_txid = ''bad'', fetched_at = ''1970-01-15T00:00:00'',
                              tx_fee = 1, tx_vsize = 1\<rparr>],
                     tx_inputs := [\<lparr>ti_txid = ''good'', prev_txid = ''Q'', prev_vout = 0,
                                    ti_address = None, ti_value = None,
                                    ti_sequence = 0xFFFFFFFF\<rparr>],
                     tx_outputs := [\<lparr>to_txid = ''good'', vout_index = 0,
                                     to_address = Some ''C'', to_value = Some 700\<rparr>],
                     ticks := 2\<rparr>,
                 committed = empty_state, closed = False\<rparr>,
        batch_size = 200\<rparr>"
  by code_simp

end
